theory Spec2Isabelle
  imports Complex_Main
begin

section \<open>The Avail funnel of paima-funnel: data model\<close>

text \<open>
  The embedding follows \<^verbatim>\<open>packages/engine/paima-funnel/src/funnels/avail/funnel.ts\<close>.
  JavaScript numbers that hold block numbers, slots and timestamps are integers and are
  modelled as \<^typ>\<open>int\<close>; the one quotient of the file, \<^verbatim>\<open>maxSlot = applyDelay(..) / 20\<close>,
  is a rational. Exceptions are values: every function that can throw returns a sum
  whose left summand is the error.
\<close>

datatype error =
    MalformedHeaderError      \<comment> \<open>no pre-runtime digest: \<^verbatim>\<open>find(..)\<close> is undefined and is dereferenced\<close>
  | UninitializedStateError   \<comment> \<open>the cache entry or its latest block is missing\<close>
  | UpstreamRpcError          \<comment> \<open>an RPC, HTTP or database call failed or returned nothing\<close>

datatype chainDataExtensionDatumType = Generic

record cdeGenericDatum =
  cdeName :: string
  blockNumber :: int
  transactionHash :: string
  payload :: string
  cdeDatumType :: chainDataExtensionDatumType
  scheduledPrefix :: string
  network :: string

text \<open>
  The records produced by \<^verbatim>\<open>getSubmittedData\<close>. Both fields are tested at run time
  (\<^verbatim>\<open>===\<close> on the block number, truthiness on the datums), and \<^verbatim>\<open>readData\<close> overwrites the
  block number with a lookup that may be \<^verbatim>\<open>undefined\<close>, so both are optional here.
\<close>

record availData =
  blockNumber :: "int option"
  extensionDatums :: "cdeGenericDatum list option"

datatype configNetworkType = AVAIL

record presyncChainData =
  extensionDatums :: "cdeGenericDatum list option"
  networkType :: configNetworkType
  network :: string
  blockNumber :: "int option"

datatype presyncResult = FUNNEL_PRESYNC_FINISHED | PresyncData "presyncChainData list"

record chainData =
  timestamp :: int
  blockHash :: string
  blockNumber :: int
  submittedData :: "string list"
  extensionDatums :: "cdeGenericDatum list option"

text \<open>
  A header of the secondary chain. The payload of a pre-runtime digest is kept in its
  decoded form (\<^verbatim>\<open>RawBabePreDigest\<close>): an enumeration all of whose variants carry a slot
  number.
\<close>

datatype rawBabePreDigest = Primary int | SecondaryPlain int | SecondaryVRF int

datatype digestItem = Other | Consensus | Seal | PreRuntime rawBabePreDigest

record blockId =
  number :: int
  hash :: string

record header = blockId +
  digest :: "digestItem list"

record headerData = blockId +
  slot :: int

record availConfig =
  delay :: "int option"
  confirmationDepth :: "int option"
  funnelBlockGroupSize :: int

text \<open>
  Modelled from the spec: \<^verbatim>\<open>AvailFunnelCacheEntryState\<close> is declared in
  \<^verbatim>\<open>FunnelCache.ts\<close>, which is not among the sources. The fields are the ones
  \<^verbatim>\<open>funnel.ts\<close> reads and writes, with the meaning the specification gives them
  (section 3, CorrelationState). The client handle \<^verbatim>\<open>api\<close> is the world below.
\<close>

record availFunnelCacheEntryState =
  latestBlock :: "headerData option"
  startingBlockHeight :: int
  lastMaxSlot :: rat
  lastBlock :: "int option"
  bufferedChainData :: "chainData list"
  timestampToBlockNumber :: "(int \<times> int) list"

subsection \<open>The world outside the funnel\<close>

record lcBody =
  block_number :: int
  data_transactions :: "string list"

record lcResponse =
  status :: int
  body :: "lcBody option"

text \<open>
  What the collaborators answer. The finalized head moves with time: \<open>finalizedHead w k\<close> is
  the number of the finalized head at the \<open>k\<close>-th time it is asked for. A finalized block
  does not change: \<open>chainBlock w n\<close> is the hash and the digest log of block \<open>n\<close>, or nothing
  if the node has no such block. \<open>web3Block w n\<close> is the timestamp of primary block \<open>n\<close>,
  \<open>latestProcessed w\<close> the row of \<^verbatim>\<open>getLatestProcessedCdeBlockheight\<close>, and
  \<open>lightClient w n\<close> the answer to \<^verbatim>\<open>GET /v2/blocks/n/data\<close> (nothing if the request
  itself fails; a body of nothing if it is not the expected JSON).
\<close>

record world =
  finalizedHead :: "nat \<Rightarrow> nat"
  chainBlock :: "nat \<Rightarrow> (string \<times> digestItem list) option"
  web3Block :: "int \<Rightarrow> int option"
  latestProcessed :: "int option"
  lightClient :: "int \<Rightarrow> lcResponse option"

datatype rpcCall =
    Web3GetBlock int
  | CreateApi
  | ChainGetFinalizedHead
  | ChainGetHeader int
  | DbLatestProcessed
  | LightClientGet int

text \<open>
  The state of one sync process: the cache entry (nothing until it is initialized), the
  number of times the finalized head was asked for, and the calls made so far.
\<close>

record process =
  cacheEntry :: "availFunnelCacheEntryState option"
  clock :: nat
  trace :: "rpcCall list"

type_synonym 'a outcome = "(error + 'a) \<times> process"

definition call :: "rpcCall \<Rightarrow> process \<Rightarrow> process" where
  "call c p = p\<lparr>trace := trace p @ [c]\<rparr>"

section \<open>The functions of funnel.ts\<close>

definition applyDelay :: "availConfig \<Rightarrow> int \<Rightarrow> int" where
  "applyDelay config baseTimestamp =
     max (baseTimestamp - (case delay config of None \<Rightarrow> 0 | Some d \<Rightarrow> d)) 0"

fun isPreRuntime :: "digestItem \<Rightarrow> bool" where
  "isPreRuntime (PreRuntime _) = True"
| "isPreRuntime _ = False"

fun slotNumber :: "rawBabePreDigest \<Rightarrow> int" where
  "slotNumber (Primary s) = s"
| "slotNumber (SecondaryPlain s) = s"
| "slotNumber (SecondaryVRF s) = s"

text \<open>
  When no log of the digest is a pre-runtime one, \<^verbatim>\<open>find\<close> answers \<^verbatim>\<open>undefined\<close> and the
  reading of \<^verbatim>\<open>asPreRuntime\<close> throws. The errors of the model are named by their cause,
  as section 7 of the specification names them.
\<close>

definition getSlotFromHeader :: "header \<Rightarrow> error + int" where
  "getSlotFromHeader h =
     (case find isPreRuntime (digest h) of
        None \<Rightarrow> Inl MalformedHeaderError
      | Some Other \<Rightarrow> Inl MalformedHeaderError
      | Some Consensus \<Rightarrow> Inl MalformedHeaderError
      | Some Seal \<Rightarrow> Inl MalformedHeaderError
      | Some (PreRuntime babeDigest) \<Rightarrow> Inr (slotNumber babeDigest))"

text \<open>
  \<^verbatim>\<open>getBlockHash(bn)\<close> followed by \<^verbatim>\<open>getHeader(hash)\<close>: the node answers with the header
  of block \<open>bn\<close>, whose number is \<open>bn\<close>, and fails for a number it has no block for; it
  has none for a negative number.
\<close>

definition getHeaderByNumber :: "world \<Rightarrow> int \<Rightarrow> error + header" where
  "getHeaderByNumber w bn =
     (if bn < 0 then Inl UpstreamRpcError
      else case chainBlock w (nat bn) of
             None \<Rightarrow> Inl UpstreamRpcError
           | Some (h, logs) \<Rightarrow> Inr \<lparr>number = bn, hash = h, digest = logs\<rparr>)"

definition getHeaderData :: "world \<Rightarrow> int \<Rightarrow> error + headerData" where
  "getHeaderData w bn =
     (case getHeaderByNumber w bn of
        Inl e \<Rightarrow> Inl e
      | Inr h \<Rightarrow>
          (case getSlotFromHeader h of
             Inl e \<Rightarrow> Inl e
           | Inr s \<Rightarrow> Inr \<lparr>number = number h, hash = hash h, slot = s\<rparr>))"

function getMultipleHeaderDataLoop ::
  "world \<Rightarrow> int \<Rightarrow> int \<Rightarrow> headerData list \<Rightarrow> process \<Rightarrow> (headerData list) outcome" where
  "getMultipleHeaderDataLoop w bn to results p =
     (if bn < to then
        (case getHeaderData w bn of
           Inl e \<Rightarrow> (Inl e, call (ChainGetHeader bn) p)
         | Inr hdr \<Rightarrow>
             getMultipleHeaderDataLoop w (bn + 1) to (results @ [hdr]) (call (ChainGetHeader bn) p))
      else (Inr results, p))"
  by pat_completeness auto
termination
  by (relation "measure (\<lambda>(w, bn, to, results, p). nat (to - bn))") auto

declare getMultipleHeaderDataLoop.simps [simp del]

definition getMultipleHeaderData ::
  "world \<Rightarrow> int \<Rightarrow> int \<Rightarrow> process \<Rightarrow> (headerData list) outcome" where
  "getMultipleHeaderData w from to p = getMultipleHeaderDataLoop w from to [] p"

text \<open>The loop of \<^verbatim>\<open>getUpperBoundBlock\<close> walks the list from its end to the first hit.\<close>

definition getUpperBoundBlock :: "(int \<times> int) list \<Rightarrow> rat \<Rightarrow> int option" where
  "getUpperBoundBlock tbn maxTimestamp =
     (case find (\<lambda>(ts, toBlockInner). maxTimestamp \<ge> of_int ts) (rev tbn) of
        None \<Rightarrow> None
      | Some (ts, toBlockInner) \<Rightarrow> Some toBlockInner)"

definition wrapTransaction :: "string \<Rightarrow> int \<Rightarrow> string \<Rightarrow> cdeGenericDatum" where
  "wrapTransaction net bnum d =
     \<lparr>cdeName = ''availDefaultExtension'', cdeGenericDatum.blockNumber = bnum,
      transactionHash = ''hash'', payload = d, cdeDatumType = Generic,
      scheduledPrefix = ''avail'', cdeGenericDatum.network = net\<rparr>"

function getSubmittedDataLoop ::
  "world \<Rightarrow> string \<Rightarrow> int \<Rightarrow> int \<Rightarrow> availData list \<Rightarrow> process \<Rightarrow> (availData list) outcome" where
  "getSubmittedDataLoop w net cur to data p =
     (if cur \<le> to then
        (case lightClient w cur of
           None \<Rightarrow> (Inl UpstreamRpcError, call (LightClientGet cur) p)
         | Some responseRaw \<Rightarrow>
             if status responseRaw \<noteq> 200 then
               getSubmittedDataLoop w net (cur + 1) to data (call (LightClientGet cur) p)
             else
               (case body responseRaw of
                  None \<Rightarrow> (Inl UpstreamRpcError, call (LightClientGet cur) p)
                | Some response \<Rightarrow>
                    if length (data_transactions response) > 0 then
                      getSubmittedDataLoop w net (cur + 1) to
                        (data @ [\<lparr>availData.blockNumber = Some (block_number response),
                                  availData.extensionDatums =
                                    Some (map (wrapTransaction net (block_number response))
                                            (data_transactions response))\<rparr>])
                        (call (LightClientGet cur) p)
                    else
                      getSubmittedDataLoop w net (cur + 1) to data (call (LightClientGet cur) p)))
      else (Inr data, p))"
  by pat_completeness auto
termination
  by (relation "measure (\<lambda>(w, net, cur, to, data, p). nat (to + 1 - cur))") auto

declare getSubmittedDataLoop.simps [simp del]

definition getSubmittedData ::
  "world \<Rightarrow> int \<Rightarrow> int \<Rightarrow> string \<Rightarrow> process \<Rightarrow> (availData list) outcome" where
  "getSubmittedData w from to net p = getSubmittedDataLoop w net from to [] p"

text \<open>
  \<^verbatim>\<open>composeChainData\<close> updates each block in place and returns the blocks; the blocks of a
  batch are distinct objects, so the update in place is the functional update below.
\<close>

definition composeBlock :: "availData list \<Rightarrow> chainData \<Rightarrow> chainData" where
  "composeBlock cdeData blockData =
     (case find (\<lambda>blockCdeData. availData.blockNumber blockCdeData = Some (chainData.blockNumber blockData))
             cdeData of
        None \<Rightarrow> blockData
      | Some matchingData \<Rightarrow>
          (case chainData.extensionDatums blockData of
             Some own \<Rightarrow>
               (case availData.extensionDatums matchingData of
                  Some extra \<Rightarrow> blockData\<lparr>chainData.extensionDatums := Some (own @ extra)\<rparr>
                | None \<Rightarrow> blockData)
           | None \<Rightarrow>
               (case availData.extensionDatums matchingData of
                  Some extra \<Rightarrow> blockData\<lparr>chainData.extensionDatums := Some extra\<rparr>
                | None \<Rightarrow> blockData)))"

definition composeChainData :: "chainData list \<Rightarrow> availData list \<Rightarrow> chainData list" where
  "composeChainData baseChainData cdeData = map (composeBlock cdeData) baseChainData"

text \<open>
  \<^verbatim>\<open>findBlockByTimestamp\<close>: the binary search over the block numbers from 1 to the
  finalized head.
\<close>

function findBlockLoop :: "world \<Rightarrow> int \<Rightarrow> int \<Rightarrow> int \<Rightarrow> process \<Rightarrow> int outcome" where
  "findBlockLoop w targetTimestamp low high p =
     (if low < high then
        (let mid = (low + high) div 2 in
         case getHeaderData w mid of
           Inl e \<Rightarrow> (Inl e, call (ChainGetHeader mid) p)
         | Inr hdr \<Rightarrow>
             if slot hdr * 20 \<le> targetTimestamp
             then findBlockLoop w targetTimestamp (mid + 1) high (call (ChainGetHeader mid) p)
             else findBlockLoop w targetTimestamp low mid (call (ChainGetHeader mid) p))
      else (Inr low, p))"
  by pat_completeness auto
termination
  by (relation "measure (\<lambda>(w, t, low, high, p). nat (high - low))") auto

declare findBlockLoop.simps [simp del]

definition findBlockByTimestamp :: "world \<Rightarrow> int \<Rightarrow> process \<Rightarrow> int outcome" where
  "findBlockByTimestamp w targetTimestamp p =
     findBlockLoop w targetTimestamp 1 (int (finalizedHead w (clock p)) + 1)
       (call ChainGetFinalizedHead (p\<lparr>clock := clock p + 1\<rparr>))"

subsection \<open>The cache entry\<close>

text \<open>
  Modelled from the spec: the class \<^verbatim>\<open>AvailFunnelCacheEntry\<close> (\<^verbatim>\<open>FunnelCache.ts\<close>) is
  not among the sources. \<^verbatim>\<open>initialize(api, mappedStartingBlockHeight)\<close> creates the
  state of section 4.3: the one number it receives is the starting height of the state,
  the cursor \<open>lastBlock\<close> is unset, the buffer and the index are empty.
  \<^verbatim>\<open>initialized()\<close> holds once the state exists, and \<^verbatim>\<open>updateLatestBlock(b)\<close> stores the
  latest block.
\<close>

definition initialize :: "int \<Rightarrow> availFunnelCacheEntryState" where
  "initialize mappedStartingBlockHeight =
     \<lparr>latestBlock = None, startingBlockHeight = mappedStartingBlockHeight, lastMaxSlot = 0,
      lastBlock = None, bufferedChainData = [], timestampToBlockNumber = []\<rparr>"

text \<open>Modelled from the spec: \<^verbatim>\<open>initialized()\<close> of the cache entry, which is not among the sources.\<close>

definition initialized :: "process \<Rightarrow> bool" where
  "initialized p = (cacheEntry p \<noteq> None)"

definition getState :: "process \<Rightarrow> error + availFunnelCacheEntryState" where
  "getState p = (case cacheEntry p of None \<Rightarrow> Inl UninitializedStateError | Some s \<Rightarrow> Inr s)"

definition latestBlockOf :: "process \<Rightarrow> error + headerData" where
  "latestBlockOf p =
     (case cacheEntry p of
        None \<Rightarrow> Inl UninitializedStateError
      | Some s \<Rightarrow> (case latestBlock s of None \<Rightarrow> Inl UninitializedStateError | Some b \<Rightarrow> Inr b))"

definition modifyState ::
  "(availFunnelCacheEntryState \<Rightarrow> availFunnelCacheEntryState) \<Rightarrow> process \<Rightarrow> process" where
  "modifyState f p = p\<lparr>cacheEntry := map_option f (cacheEntry p)\<rparr>"

subsection \<open>The funnel\<close>

definition updateLatestBlock :: "world \<Rightarrow> availConfig \<Rightarrow> process \<Rightarrow> int outcome" where
  "updateLatestBlock w config p =
     (case getState p of
        Inl e \<Rightarrow> (Inl e, p)
      | Inr cachedState \<Rightarrow>
          (let latestNumber = int (finalizedHead w (clock p));
               p1 = call ChainGetFinalizedHead (p\<lparr>clock := clock p + 1\<rparr>);
               delayedBlock =
                 max (latestNumber - (case confirmationDepth config of None \<Rightarrow> 0 | Some c \<Rightarrow> c)) 1;
               p2 = call (ChainGetHeader delayedBlock) p1
           in case getHeaderData w delayedBlock of
                Inl e \<Rightarrow> (Inl e, p2)
              | Inr delayedHeader \<Rightarrow>
                  (Inr delayedBlock, modifyState (\<lambda>s. s\<lparr>latestBlock := Some delayedHeader\<rparr>) p2)))"

definition recoverState :: "world \<Rightarrow> availConfig \<Rightarrow> int \<Rightarrow> process \<Rightarrow> unit outcome" where
  "recoverState w config startingHeight p =
     (let entry =
        (if \<not> initialized p then
           (case web3Block w startingHeight of
              None \<Rightarrow> (Inl UpstreamRpcError, call (Web3GetBlock startingHeight) p)
            | Some startingTimestamp \<Rightarrow>
                (case findBlockByTimestamp w (applyDelay config startingTimestamp)
                        (call CreateApi (call (Web3GetBlock startingHeight) p)) of
                   (Inl e, p1) \<Rightarrow> (Inl e, p1)
                 | (Inr mappedStartingBlockHeight, p1) \<Rightarrow>
                     (Inr (), p1\<lparr>cacheEntry := Some (initialize mappedStartingBlockHeight)\<rparr>)))
         else (Inr (), p))
      in case entry of
           (Inl e, p2) \<Rightarrow> (Inl e, p2)
         | (Inr u, p2) \<Rightarrow>
             (case updateLatestBlock w config p2 of
                (Inl e, p3) \<Rightarrow> (Inl e, p3)
              | (Inr n, p3) \<Rightarrow> (Inr (), p3)))"

record presyncArg =
  argNetwork :: string
  argFrom :: int
  argTo :: int

definition toPresync :: "string \<Rightarrow> availData \<Rightarrow> presyncChainData" where
  "toPresync chainName d =
     \<lparr>presyncChainData.extensionDatums = availData.extensionDatums d, networkType = AVAIL,
      presyncChainData.network = chainName, presyncChainData.blockNumber = availData.blockNumber d\<rparr>"

text \<open>
  \<open>baseData\<close> is what the wrapped funnel answered to \<^verbatim>\<open>readPresyncData(args)\<close>, which is
  asked first.
\<close>

definition readPresyncData ::
  "world \<Rightarrow> string \<Rightarrow> (string \<rightharpoonup> presyncResult) \<Rightarrow> presyncArg list \<Rightarrow> process
     \<Rightarrow> (string \<rightharpoonup> presyncResult) outcome" where
  "readPresyncData w chainName baseData args p =
     (case find (\<lambda>arg. argNetwork arg = chainName) args of
        None \<Rightarrow> (Inr baseData, p)
      | Some arg \<Rightarrow>
          (case getState p of
             Inl e \<Rightarrow> (Inl e, p)
           | Inr cachedState \<Rightarrow>
               (let startBlockHeight = startingBlockHeight cachedState in
                if argFrom arg \<ge> startBlockHeight then
                  (Inr (baseData(chainName \<mapsto> FUNNEL_PRESYNC_FINISHED)), p)
                else
                  (let toBlock = min (argTo arg) (startBlockHeight - 1);
                       fromBlock = max (argFrom arg) 0
                   in if fromBlock > toBlock then (Inr baseData, p)
                      else
                        (case getSubmittedData w fromBlock toBlock chainName p of
                           (Inl e, p1) \<Rightarrow> (Inl e, p1)
                         | (Inr data, p1) \<Rightarrow>
                             (Inr (baseData(chainName \<mapsto> PresyncData (map (toPresync chainName) data))),
                              p1))))))"

subsection \<open>readData\<close>

text \<open>Lines 51 to 54: an empty buffer is refilled from the wrapped funnel \<open>base\<close>.\<close>

definition fillBuffer :: "(int \<Rightarrow> error + chainData list) \<Rightarrow> int \<Rightarrow> process \<Rightarrow> unit outcome" where
  "fillBuffer base blockHeight p =
     (case getState p of
        Inl e \<Rightarrow> (Inl e, p)
      | Inr cachedState \<Rightarrow>
          if length (bufferedChainData cachedState) = 0 then
            (case base blockHeight of
               Inl e \<Rightarrow> (Inl e, p)
             | Inr baseData \<Rightarrow>
                 (Inr (), modifyState (\<lambda>s. s\<lparr>bufferedChainData := bufferedChainData s @ baseData\<rparr>) p))
          else (Inr (), p))"

text \<open>
  Lines 77 to 107. \<^verbatim>\<open>!cachedState.lastBlock\<close> holds for an unset cursor and for the
  cursor 0. \<open>firstBlock\<close> is \<^verbatim>\<open>chainData[0]\<close>.
\<close>

definition resolveLastBlock :: "world \<Rightarrow> availConfig \<Rightarrow> chainData \<Rightarrow> process \<Rightarrow> int outcome" where
  "resolveLastBlock w config firstBlock p =
     (case getState p of
        Inl e \<Rightarrow> (Inl e, p)
      | Inr cachedState \<Rightarrow>
          (case latestProcessed w of
             Some block_height \<Rightarrow>
               (let l = max block_height (startingBlockHeight cachedState - 1)
                in (Inr l, modifyState (\<lambda>s. s\<lparr>lastBlock := Some l\<rparr>) (call DbLatestProcessed p)))
           | None \<Rightarrow>
               (case web3Block w (chainData.blockNumber firstBlock - 1) of
                  None \<Rightarrow>
                    (Inl UpstreamRpcError,
                     call (Web3GetBlock (chainData.blockNumber firstBlock - 1)) (call DbLatestProcessed p))
                | Some ts \<Rightarrow>
                    (case findBlockByTimestamp w (applyDelay config ts)
                            (call (Web3GetBlock (chainData.blockNumber firstBlock - 1))
                               (call DbLatestProcessed p)) of
                       (Inl e, p1) \<Rightarrow> (Inl e, p1)
                     | (Inr earliestParallelChainBlock, p1) \<Rightarrow>
                         (Inr (earliestParallelChainBlock - 1),
                          modifyState (\<lambda>s. s\<lparr>lastBlock := Some (earliestParallelChainBlock - 1)\<rparr>) p1)))))"

definition determineLastBlock :: "world \<Rightarrow> availConfig \<Rightarrow> chainData \<Rightarrow> process \<Rightarrow> int outcome" where
  "determineLastBlock w config firstBlock p =
     (case getState p of
        Inl e \<Rightarrow> (Inl e, p)
      | Inr cachedState \<Rightarrow>
          (case lastBlock cachedState of
             None \<Rightarrow> resolveLastBlock w config firstBlock p
           | Some l \<Rightarrow> if l = 0 then resolveLastBlock w config firstBlock p else (Inr l, p)))"

text \<open>
  Lines 142 to 145: the wait for the secondary chain to produce a block. The loops that
  may run forever take fuel; a result of nothing means that the fuel ran out.
\<close>

fun waitForBlock :: "nat \<Rightarrow> world \<Rightarrow> availConfig \<Rightarrow> int \<Rightarrow> process \<Rightarrow> unit outcome option" where
  "waitForBlock 0 w config latestNumber p = None"
| "waitForBlock (Suc k) w config latestNumber p =
     (case updateLatestBlock w config p of
        (Inl e, p1) \<Rightarrow> Some (Inl e, p1)
      | (Inr n, p1) \<Rightarrow>
          if n = latestNumber then waitForBlock k w config latestNumber p1 else Some (Inr (), p1))"

text \<open>
  Lines 114 to 146. With an unset cursor the bound \<^verbatim>\<open>to\<close> is not a number, nothing is
  fetched and the loop goes on for ever.
\<close>

fun fetchHeaders ::
  "nat \<Rightarrow> world \<Rightarrow> availConfig \<Rightarrow> rat \<Rightarrow> headerData list \<Rightarrow> process
     \<Rightarrow> (headerData list) outcome option" where
  "fetchHeaders 0 w config maxSlot headers p = None"
| "fetchHeaders (Suc k) w config maxSlot headers p =
     (case latestBlockOf p of
        Inl e \<Rightarrow> Some (Inl e, p)
      | Inr latest \<Rightarrow>
          (case getState p of
             Inl e \<Rightarrow> Some (Inl e, p)
           | Inr cachedState \<Rightarrow>
               (case lastBlock cachedState of
                  None \<Rightarrow> None
                | Some l \<Rightarrow>
                    (let to = min (number latest) (l + funnelBlockGroupSize config) in
                     case getMultipleHeaderData w (l + 1) to p of
                       (Inl e, p1) \<Rightarrow> Some (Inl e, p1)
                     | (Inr availHeaders, p1) \<Rightarrow>
                         (let headers1 = headers @ availHeaders;
                              p2 = (if length headers1 > 0
                                    then modifyState (\<lambda>s. s\<lparr>lastBlock := Some (number (last headers1))\<rparr>) p1
                                    else p1)
                          in if length headers1 > 0 \<and> of_int (slot (last headers1)) \<ge> maxSlot
                             then Some (Inr headers1, p2)
                             else if to \<noteq> number latest
                             then fetchHeaders k w config maxSlot headers1 p2
                             else
                               (case waitForBlock k w config (number latest) p2 of
                                  None \<Rightarrow> None
                                | Some (Inl e, p3) \<Rightarrow> Some (Inl e, p3)
                                | Some (Inr u, p3) \<Rightarrow> fetchHeaders k w config maxSlot headers1 p3))))))"

text \<open>
  Lines 169 to 180: the secondary blocks of the index are walked together with the
  primary blocks; \<open>rest\<close> is the part of the batch from \<^verbatim>\<open>currIndex\<close> on.
\<close>

fun buildMapping ::
  "availConfig \<Rightarrow> (int \<times> int) list \<Rightarrow> chainData list \<Rightarrow> (int \<rightharpoonup> int) \<Rightarrow> (int \<rightharpoonup> int)" where
  "buildMapping config [] rest m = m"
| "buildMapping config (availBlock # availBlocks) rest m =
     (case dropWhile (\<lambda>d. \<not> applyDelay config (timestamp d) \<ge> fst availBlock) rest of
        [] \<Rightarrow> buildMapping config availBlocks [] m
      | d # ds \<Rightarrow>
          buildMapping config availBlocks (d # ds) (m(snd availBlock \<mapsto> chainData.blockNumber d)))"

definition remapBlockNumber :: "(int \<rightharpoonup> int) \<Rightarrow> availData \<Rightarrow> availData" where
  "remapBlockNumber m d =
     d\<lparr>availData.blockNumber := (case availData.blockNumber d of None \<Rightarrow> None | Some n \<Rightarrow> m n)\<rparr>"

text \<open>Lines 148 to 163: the index is extended at its end and trimmed at its head.\<close>

definition appendHeaders :: "headerData list \<Rightarrow> availFunnelCacheEntryState \<Rightarrow> availFunnelCacheEntryState" where
  "appendHeaders headers s =
     s\<lparr>timestampToBlockNumber :=
         timestampToBlockNumber s @ map (\<lambda>availHeader. (slot availHeader * 20, number availHeader)) headers,
       latestBlock := (if headers = [] then latestBlock s else Some (last headers))\<rparr>"

definition trimIndex :: "availFunnelCacheEntryState \<Rightarrow> availFunnelCacheEntryState" where
  "trimIndex s =
     s\<lparr>timestampToBlockNumber :=
         dropWhile (\<lambda>entry. of_int (fst entry) \<le> lastMaxSlot s * 20) (timestampToBlockNumber s)\<rparr>"

text \<open>Lines 148 to 215, with the headers the loop has fetched.\<close>

definition correlate ::
  "world \<Rightarrow> availConfig \<Rightarrow> string \<Rightarrow> rat \<Rightarrow> chainData list \<Rightarrow> headerData list \<Rightarrow> process
     \<Rightarrow> (chainData list) outcome" where
  "correlate w config chainName maxSlot chainData headers p =
     (case getState p of
        Inl e \<Rightarrow> (Inl e, p)
      | Inr cachedState \<Rightarrow>
          (let s1 = trimIndex (appendHeaders headers cachedState) in
           case timestampToBlockNumber s1 of
             [] \<Rightarrow> (Inr chainData, p\<lparr>cacheEntry := Some s1\<rparr>)
           | firstEntry # others \<Rightarrow>
               (let p1 = p\<lparr>cacheEntry := Some (s1\<lparr>lastMaxSlot := maxSlot\<rparr>)\<rparr>;
                    availToMainchainBlockHeightMapping =
                      buildMapping config (timestampToBlockNumber s1) chainData Map.empty
                in if of_int (fst firstEntry) > maxSlot * 20 then (Inr chainData, p1)
                   else
                     (let fromBlock = snd firstEntry;
                          toBlock =
                            (case getUpperBoundBlock (timestampToBlockNumber s1) (maxSlot * 20) of
                               None \<Rightarrow> fromBlock
                             | Some b \<Rightarrow> if b = 0 then fromBlock else b)
                      in if toBlock = 0 \<or> fromBlock < 0 \<or> toBlock < fromBlock then (Inr chainData, p1)
                         else
                           (case getSubmittedData w fromBlock toBlock chainName p1 of
                              (Inl e, p2) \<Rightarrow> (Inl e, p2)
                            | (Inr availData, p2) \<Rightarrow>
                                (Inr (composeChainData chainData
                                        (map (remapBlockNumber availToMainchainBlockHeightMapping) availData)),
                                 p2))))))"

text \<open>
  The blocks of the batch are the objects of the buffer (line 65), and \<^verbatim>\<open>composeChainData\<close>
  changes the blocks of the batch where they are (lines 506 to 511). Line 71 takes as
  many blocks off the head of the buffer as are in the batch, so a block of the batch
  that stands behind a block that did not pass is still in the buffer, and the buffer
  shows its merged datums. \<open>writeBack\<close> walks the buffer before line 71 and puts, for
  every block that passed the filter, the next block of the merged batch in its place;
  \<open>shareMerged\<close> stores what is left of that buffer behind the blocks line 71 took off.
  The blocks of a buffer are distinct objects, each with its own list of datums, as the
  wrapped funnel builds them.
\<close>

fun writeBack :: "(chainData \<Rightarrow> bool) \<Rightarrow> chainData list \<Rightarrow> chainData list \<Rightarrow> chainData list" where
  "writeBack passes [] merged = []"
| "writeBack passes (d # ds) [] = d # ds"
| "writeBack passes (d # ds) (m # ms) =
     (if passes d then m # writeBack passes ds ms else d # writeBack passes ds (m # ms))"

definition shareMerged ::
  "(chainData \<Rightarrow> bool) \<Rightarrow> chainData list \<Rightarrow> (chainData list) outcome \<Rightarrow> (chainData list) outcome" where
  "shareMerged passes buffer out =
     (case out of
        (Inl e, p) \<Rightarrow> (Inl e, p)
      | (Inr batch, p) \<Rightarrow>
          (Inr batch,
           modifyState (\<lambda>s. s\<lparr>bufferedChainData :=
                                drop (length batch) (writeBack passes buffer batch)\<rparr>) p))"

text \<open>\<^verbatim>\<open>AvailFunnel.readData\<close>.\<close>

definition readData ::
  "nat \<Rightarrow> world \<Rightarrow> availConfig \<Rightarrow> string \<Rightarrow> (int \<Rightarrow> error + chainData list) \<Rightarrow> int \<Rightarrow> process
     \<Rightarrow> (chainData list) outcome option" where
  "readData fuel w config chainName base blockHeight p =
     (case fillBuffer base blockHeight p of
        (Inl e, p1) \<Rightarrow> Some (Inl e, p1)
      | (Inr u, p1) \<Rightarrow>
          (case updateLatestBlock w config p1 of
             (Inl e, p2) \<Rightarrow> Some (Inl e, p2)
           | (Inr n, p2) \<Rightarrow>
               (case latestBlockOf p2 of
                  Inl e \<Rightarrow> Some (Inl e, p2)
                | Inr latestBlockQueryState \<Rightarrow>
                    (case getState p2 of
                       Inl e \<Rightarrow> Some (Inl e, p2)
                     | Inr cachedState \<Rightarrow>
                         (let latestHeaderTimestamp = slot latestBlockQueryState * 20;
                              chainData =
                                filter (\<lambda>d. applyDelay config (timestamp d) \<le> latestHeaderTimestamp)
                                  (bufferedChainData cachedState);
                              p3 = modifyState
                                     (\<lambda>s. s\<lparr>bufferedChainData :=
                                              drop (length chainData) (bufferedChainData s)\<rparr>) p2
                          in case chainData of
                               [] \<Rightarrow> Some (Inr [], p3)
                             | firstBlock # others \<Rightarrow>
                                 (case determineLastBlock w config firstBlock p3 of
                                    (Inl e, p4) \<Rightarrow> Some (Inl e, p4)
                                  | (Inr l, p4) \<Rightarrow>
                                      (let maxSlot =
                                             of_int (applyDelay config (timestamp (last chainData))) / 20
                                       in case fetchHeaders fuel w config maxSlot [] p4 of
                                            None \<Rightarrow> None
                                          | Some (Inl e, p5) \<Rightarrow> Some (Inl e, p5)
                                          | Some (Inr headers, p5) \<Rightarrow>
                                              Some (shareMerged
                                                      (\<lambda>d. applyDelay config (timestamp d)
                                                              \<le> latestHeaderTimestamp)
                                                      (bufferedChainData cachedState)
                                                      (correlate w config chainName maxSlot chainData
                                                         headers p5)))))))))"

section \<open>Notions of the specification\<close>

text \<open>The logical time of a secondary block: twenty seconds for each slot.\<close>

definition logicalTime :: "world \<Rightarrow> int \<Rightarrow> int option" where
  "logicalTime w n = (case getHeaderData w n of Inl e \<Rightarrow> None | Inr h \<Rightarrow> Some (slot h * 20))"

text \<open>
  The records section 4.2 of the specification asks of \<^verbatim>\<open>fetchSubmittedData\<close> for one
  block: none for an answer other than 200, none for an answer of 200 without
  transactions, and one record that wraps each transaction as a generic datum of the
  network otherwise.
\<close>

definition expectedRecords :: "world \<Rightarrow> string \<Rightarrow> int \<Rightarrow> availData list" where
  "expectedRecords w net n =
     (case lightClient w n of
        None \<Rightarrow> []
      | Some r \<Rightarrow>
          if status r \<noteq> 200 then []
          else (case body r of
                  None \<Rightarrow> []
                | Some b \<Rightarrow>
                    if data_transactions b = [] then []
                    else [\<lparr>availData.blockNumber = Some (block_number b),
                           availData.extensionDatums =
                             Some (map (\<lambda>d. \<lparr>cdeName = ''availDefaultExtension'',
                                              cdeGenericDatum.blockNumber = block_number b,
                                              transactionHash = ''hash'', payload = d,
                                              cdeDatumType = Generic, scheduledPrefix = ''avail'',
                                              cdeGenericDatum.network = net\<rparr>)
                                     (data_transactions b))\<rparr>]))"

text \<open>
  The slots of the secondary chain do not decrease with the block number: of two blocks
  that have a logical time, the later block has the later or the same time.
\<close>

definition slotsNonDecreasing :: "world \<Rightarrow> bool" where
  "slotsNonDecreasing w \<longleftrightarrow>
     (\<forall>m n a b. m \<le> n \<and> logicalTime w m = Some a \<and> logicalTime w n = Some b \<longrightarrow> a \<le> b)"

text \<open>
  The invariant of the index: every entry is a block of the chain with its logical time,
  the block numbers do not decrease along the index, and none is beyond the cursor (or
  beyond 0, for a cursor that is unset or negative).
\<close>

definition cursorBound :: "availFunnelCacheEntryState \<Rightarrow> int" where
  "cursorBound s = (case lastBlock s of None \<Rightarrow> 0 | Some l \<Rightarrow> max 0 l)"

definition indexInv :: "world \<Rightarrow> availFunnelCacheEntryState \<Rightarrow> bool" where
  "indexInv w s \<longleftrightarrow>
     (\<forall>e\<in>set (timestampToBlockNumber s).
        logicalTime w (snd e) = Some (fst e) \<and> snd e \<le> cursorBound s) \<and>
     sorted (map snd (timestampToBlockNumber s))"

text \<open>
  What holds of the headers the loop of \<^verbatim>\<open>readData\<close> has fetched so far: they are headers
  of the chain, in ascending order, the cursor is at the last of them, and no entry of the
  index is beyond any of them.
\<close>

definition fetched :: "world \<Rightarrow> headerData list \<Rightarrow> availFunnelCacheEntryState \<Rightarrow> bool" where
  "fetched w hs s \<longleftrightarrow>
     (\<forall>h\<in>set hs. getHeaderData w (number h) = Inr h) \<and>
     sorted (map number hs) \<and>
     (hs \<noteq> [] \<longrightarrow> lastBlock s = Some (number (last hs))) \<and>
     (\<forall>h\<in>set hs. \<forall>e\<in>set (timestampToBlockNumber s). snd e \<le> number h)"

text \<open>
  The processes a sync process can be in: it starts without a cache entry, and goes on
  by calls of \<^verbatim>\<open>recoverState\<close>, \<^verbatim>\<open>readPresyncData\<close> and \<^verbatim>\<open>readData\<close> that return, with a
  value or with an error.
\<close>

inductive reachable :: "world \<Rightarrow> availConfig \<Rightarrow> string \<Rightarrow> process \<Rightarrow> bool"
  for w :: world and config :: availConfig and chainName :: string where
  start: "cacheEntry p = None \<Longrightarrow> reachable w config chainName p"
| recover: "reachable w config chainName p \<Longrightarrow>
            recoverState w config startingHeight p = (r, p') \<Longrightarrow> reachable w config chainName p'"
| presync: "reachable w config chainName p \<Longrightarrow>
            readPresyncData w chainName baseData args p = (r, p') \<Longrightarrow> reachable w config chainName p'"
| read: "reachable w config chainName p \<Longrightarrow>
         readData fuel w config chainName base blockHeight p = Some (r, p') \<Longrightarrow>
         reachable w config chainName p'"

section \<open>Example worlds\<close>

text \<open>
  A secondary chain whose genesis block has no digest and whose block \<open>n\<close> is of slot
  \<open>n + 10\<close>; its finalized head is block 6 at first and moves on by one block each time
  it is asked for. Primary block \<open>n\<close> is of time \<open>200 + 10 n\<close>, no height is persisted,
  and every secondary block has one transaction.
\<close>

definition exampleWorld :: world where
  "exampleWorld =
     \<lparr>finalizedHead = (\<lambda>k. 6 + k),
      chainBlock = (\<lambda>n. if n = 0 then Some (''genesis'', [])
                         else Some (''h'', [Seal, PreRuntime (Primary (int n + 10))])),
      web3Block = (\<lambda>n. Some (200 + 10 * n)),
      latestProcessed = None,
      lightClient = (\<lambda>n. Some \<lparr>status = 200,
                                 body = Some \<lparr>block_number = n, data_transactions = [''tx'']\<rparr>\<rparr>)\<rparr>"

definition exampleConfig :: availConfig where
  "exampleConfig = \<lparr>delay = None, confirmationDepth = None, funnelBlockGroupSize = 100\<rparr>"

definition emptyProcess :: process where
  "emptyProcess = \<lparr>cacheEntry = None, clock = 0, trace = []\<rparr>"

definition exampleBlock :: "int \<Rightarrow> int \<Rightarrow> chainData" where
  "exampleBlock n t =
     \<lparr>timestamp = t, blockHash = ''b'', chainData.blockNumber = n, submittedData = [],
      chainData.extensionDatums = None\<rparr>"

text \<open>
  A light client that answers 404 for block 1, an empty list for block 2, and two
  transactions for every other block.
\<close>

definition mixedLightClientWorld :: world where
  "mixedLightClientWorld =
     \<lparr>finalizedHead = (\<lambda>k. 0),
      chainBlock = (\<lambda>n. None),
      web3Block = (\<lambda>n. None),
      latestProcessed = None,
      lightClient = (\<lambda>n. if n = 1 then Some \<lparr>status = 404, body = None\<rparr>
                          else if n = 2 then Some \<lparr>status = 200,
                                 body = Some \<lparr>block_number = 2, data_transactions = []\<rparr>\<rparr>
                          else Some \<lparr>status = 200,
                                 body = Some \<lparr>block_number = n, data_transactions = [''a'', ''b'']\<rparr>\<rparr>)\<rparr>"

text \<open>A record of one transaction for block \<open>n\<close>.\<close>

definition exampleRecord :: "int \<Rightarrow> string \<Rightarrow> availData" where
  "exampleRecord n d =
     \<lparr>availData.blockNumber = Some n,
      availData.extensionDatums = Some [wrapTransaction ''avail'' n d]\<rparr>"

text \<open>A process whose state has the starting height 50.\<close>

definition presyncProcess :: process where
  "presyncProcess = \<lparr>cacheEntry = Some (initialize 50), clock = 0, trace = []\<rparr>"

text \<open>The process after \<^verbatim>\<open>recoverState\<close> on the example world, with the starting block 3.\<close>

definition recoveredProcess :: process where
  "recoveredProcess = snd (recoverState exampleWorld exampleConfig 3 emptyProcess)"

text \<open>The example world with the persisted height 5.\<close>

definition persistedWorld :: world where
  "persistedWorld = exampleWorld\<lparr>latestProcessed := Some 5\<rparr>"

section \<open>Deriving the slot of a header\<close>



section \<open>The time correlator\<close>

lemma findBlockLoop_search:
  assumes "low \<le> high"
    and "\<And>n. low \<le> n \<Longrightarrow> n < high \<Longrightarrow> logicalTime w n \<noteq> None"
    and "\<And>m n a b. low \<le> m \<Longrightarrow> m \<le> n \<Longrightarrow> n < high \<Longrightarrow> logicalTime w m = Some a \<Longrightarrow>
           logicalTime w n = Some b \<Longrightarrow> a \<le> b"
  shows "\<exists>r p'. findBlockLoop w target low high p = (Inr r, p') \<and> low \<le> r \<and> r \<le> high \<and>
           cacheEntry p' = cacheEntry p \<and> clock p' = clock p \<and>
           (\<forall>n a. low \<le> n \<and> n < r \<and> logicalTime w n = Some a \<longrightarrow> a \<le> target) \<and>
           (\<forall>n a. r \<le> n \<and> n < high \<and> logicalTime w n = Some a \<longrightarrow> target < a)"
  using assms
proof (induction w target low high p rule: findBlockLoop.induct)
  case (1 w target low high p)
  show ?case
  proof (cases "low < high")
    case False
    then have "findBlockLoop w target low high p = (Inr low, p)"
      by (simp add: findBlockLoop.simps[of w target low high])
    with False "1.prems"(1) show ?thesis by simp
  next
    case True
    define mid where "mid = (low + high) div 2"
    have mid: "low \<le> mid" "mid < high" using True by (auto simp: mid_def)
    from "1.prems"(2)[OF mid] obtain h where h: "getHeaderData w mid = Inr h"
      by (auto simp: logicalTime_def split: sum.splits)
    then have tm: "logicalTime w mid = Some (slot h * 20)" by (simp add: logicalTime_def)
    show ?thesis
    proof (cases "slot h * 20 \<le> target")
      case le: True
      have "\<exists>r p'. findBlockLoop w target (mid + 1) high (call (ChainGetHeader mid) p) = (Inr r, p') \<and>
              mid + 1 \<le> r \<and> r \<le> high \<and>
              cacheEntry p' = cacheEntry (call (ChainGetHeader mid) p) \<and>
              clock p' = clock (call (ChainGetHeader mid) p) \<and>
              (\<forall>n a. mid + 1 \<le> n \<and> n < r \<and> logicalTime w n = Some a \<longrightarrow> a \<le> target) \<and>
              (\<forall>n a. r \<le> n \<and> n < high \<and> logicalTime w n = Some a \<longrightarrow> target < a)"
      proof (rule "1.IH"(1)[OF True mid_def h le])
        show "mid + 1 \<le> high" using mid by simp
        show "\<And>n. mid + 1 \<le> n \<Longrightarrow> n < high \<Longrightarrow> logicalTime w n \<noteq> None"
          using "1.prems"(2) mid by simp
        show "\<And>m n a b. mid + 1 \<le> m \<Longrightarrow> m \<le> n \<Longrightarrow> n < high \<Longrightarrow> logicalTime w m = Some a \<Longrightarrow>
           logicalTime w n = Some b \<Longrightarrow> a \<le> b"
          using "1.prems"(3) mid
          by (meson add_increasing2 le_less_trans less_imp_le zero_le_one order_trans)
      qed
      then obtain r p' where r:
        "findBlockLoop w target (mid + 1) high (call (ChainGetHeader mid) p) = (Inr r, p')"
        "mid + 1 \<le> r" "r \<le> high" "cacheEntry p' = cacheEntry p" "clock p' = clock p"
        "\<forall>n a. mid + 1 \<le> n \<and> n < r \<and> logicalTime w n = Some a \<longrightarrow> a \<le> target"
        "\<forall>n a. r \<le> n \<and> n < high \<and> logicalTime w n = Some a \<longrightarrow> target < a"
        by (auto simp: call_def)
      have below: "a \<le> target" if "low \<le> n" "n < r" "logicalTime w n = Some a" for n a
      proof (cases "n \<le> mid")
        case True
        from "1.prems"(3)[OF that(1) True mid(2) that(3) tm] le show ?thesis by simp
      next
        case False
        then have "mid + 1 \<le> n" by simp
        with r(6) that show ?thesis by blast
      qed
      have eq: "findBlockLoop w target low high p = (Inr r, p')"
        using True h le r(1) by (simp add: findBlockLoop.simps[of w target low high] mid_def Let_def)
      show ?thesis using eq r mid below by auto
    next
      case gt: False
      have "\<exists>r p'. findBlockLoop w target low mid (call (ChainGetHeader mid) p) = (Inr r, p') \<and>
              low \<le> r \<and> r \<le> mid \<and>
              cacheEntry p' = cacheEntry (call (ChainGetHeader mid) p) \<and>
              clock p' = clock (call (ChainGetHeader mid) p) \<and>
              (\<forall>n a. low \<le> n \<and> n < r \<and> logicalTime w n = Some a \<longrightarrow> a \<le> target) \<and>
              (\<forall>n a. r \<le> n \<and> n < mid \<and> logicalTime w n = Some a \<longrightarrow> target < a)"
      proof (rule "1.IH"(2)[OF True mid_def h gt])
        show "low \<le> mid" using mid by simp
        show "\<And>n. low \<le> n \<Longrightarrow> n < mid \<Longrightarrow> logicalTime w n \<noteq> None"
          using "1.prems"(2) mid by simp
        show "\<And>m n a b. low \<le> m \<Longrightarrow> m \<le> n \<Longrightarrow> n < mid \<Longrightarrow> logicalTime w m = Some a \<Longrightarrow>
           logicalTime w n = Some b \<Longrightarrow> a \<le> b"
          using "1.prems"(3) mid by (meson less_trans)
      qed
      then obtain r p' where r:
        "findBlockLoop w target low mid (call (ChainGetHeader mid) p) = (Inr r, p')"
        "low \<le> r" "r \<le> mid" "cacheEntry p' = cacheEntry p" "clock p' = clock p"
        "\<forall>n a. low \<le> n \<and> n < r \<and> logicalTime w n = Some a \<longrightarrow> a \<le> target"
        "\<forall>n a. r \<le> n \<and> n < mid \<and> logicalTime w n = Some a \<longrightarrow> target < a"
        by (auto simp: call_def)
      have above: "target < a" if "r \<le> n" "n < high" "logicalTime w n = Some a" for n a
      proof (cases "n < mid")
        case True
        with r(7) that show ?thesis by blast
      next
        case False
        then have "mid \<le> n" by simp
        from "1.prems"(3)[OF mid(1) this that(2) tm that(3)] gt show ?thesis by simp
      qed
      have eq: "findBlockLoop w target low high p = (Inr r, p')"
        using True h gt r(1) by (simp add: findBlockLoop.simps[of w target low high] mid_def Let_def)
      show ?thesis using eq r mid above by auto
    qed
  qed
qed

lemma findBlockByTimestamp_search:
  assumes "\<And>n. 1 \<le> n \<Longrightarrow> n \<le> int (finalizedHead w (clock p)) \<Longrightarrow> logicalTime w n \<noteq> None"
    and "\<And>m n a b. 1 \<le> m \<Longrightarrow> m \<le> n \<Longrightarrow> n \<le> int (finalizedHead w (clock p)) \<Longrightarrow>
           logicalTime w m = Some a \<Longrightarrow> logicalTime w n = Some b \<Longrightarrow> a \<le> b"
  shows "\<exists>r p'. findBlockByTimestamp w target p = (Inr r, p') \<and>
           1 \<le> r \<and> r \<le> int (finalizedHead w (clock p)) + 1 \<and>
           cacheEntry p' = cacheEntry p \<and> clock p' = clock p + 1 \<and>
           (\<forall>n a. 1 \<le> n \<and> n < r \<and> logicalTime w n = Some a \<longrightarrow> a \<le> target) \<and>
           (\<forall>n a. r \<le> n \<and> n \<le> int (finalizedHead w (clock p)) \<and> logicalTime w n = Some a
                    \<longrightarrow> target < a)"
proof -
  let ?q = "call ChainGetFinalizedHead (p\<lparr>clock := clock p + 1\<rparr>)"
  have "\<exists>r p'. findBlockLoop w target 1 (int (finalizedHead w (clock p)) + 1) ?q = (Inr r, p') \<and>
          1 \<le> r \<and> r \<le> int (finalizedHead w (clock p)) + 1 \<and>
          cacheEntry p' = cacheEntry ?q \<and> clock p' = clock ?q \<and>
          (\<forall>n a. 1 \<le> n \<and> n < r \<and> logicalTime w n = Some a \<longrightarrow> a \<le> target) \<and>
          (\<forall>n a. r \<le> n \<and> n < int (finalizedHead w (clock p)) + 1 \<and> logicalTime w n = Some a
                   \<longrightarrow> target < a)"
  proof (rule findBlockLoop_search)
    show "1 \<le> int (finalizedHead w (clock p)) + 1" by simp
    show "logicalTime w n \<noteq> None" if "1 \<le> n" "n < int (finalizedHead w (clock p)) + 1" for n
    proof -
      from that(2) have "n \<le> int (finalizedHead w (clock p))" by simp
      from assms(1)[OF that(1) this] show ?thesis .
    qed
    show "a \<le> b" if "1 \<le> m" "m \<le> n" "n < int (finalizedHead w (clock p)) + 1"
      "logicalTime w m = Some a" "logicalTime w n = Some b" for m n a b
    proof -
      from that(3) have "n \<le> int (finalizedHead w (clock p))" by simp
      from assms(2)[OF that(1,2) this that(4,5)] show ?thesis .
    qed
  qed
  then obtain r p' where r:
          "findBlockLoop w target 1 (int (finalizedHead w (clock p)) + 1) ?q = (Inr r, p')"
          "1 \<le> r" "r \<le> int (finalizedHead w (clock p)) + 1"
          "cacheEntry p' = cacheEntry ?q" "clock p' = clock ?q"
          "\<forall>n a. 1 \<le> n \<and> n < r \<and> logicalTime w n = Some a \<longrightarrow> a \<le> target"
          "\<forall>n a. r \<le> n \<and> n < int (finalizedHead w (clock p)) + 1 \<and> logicalTime w n = Some a
                   \<longrightarrow> target < a"
    by blast
  have f1: "findBlockByTimestamp w target p = (Inr r, p')"
    using r(1) by (simp add: findBlockByTimestamp_def)
  have f2: "cacheEntry p' = cacheEntry p" using r(4) by (simp add: call_def)
  have f3: "clock p' = clock p + 1" using r(5) by (simp add: call_def)
  have f4: "\<forall>n a. r \<le> n \<and> n \<le> int (finalizedHead w (clock p)) \<and> logicalTime w n = Some a
                    \<longrightarrow> target < a"
  proof (intro allI impI)
    fix n a assume "r \<le> n \<and> n \<le> int (finalizedHead w (clock p)) \<and> logicalTime w n = Some a"
    then have "r \<le> n \<and> n < int (finalizedHead w (clock p)) + 1 \<and> logicalTime w n = Some a" by simp
    with r(7) show "target < a" by blast
  qed
  from f1 r(2) r(3) f2 f3 r(6) f4 show ?thesis by blast
qed

lemma logicalTime_before_block_1:
  assumes "logicalTime w 0 = None" and "logicalTime w n = Some a"
  shows "1 \<le> n"
proof (rule ccontr)
  assume "\<not> 1 \<le> n"
  then have "n = 0 \<or> n < 0" by auto
  then show False
  proof
    assume "n = 0"
    with assms show False by simp
  next
    assume "n < 0"
    then have "logicalTime w n = None"
      by (simp add: logicalTime_def getHeaderData_def getHeaderByNumber_def)
    with assms(2) show False by simp
  qed
qed

text \<open>
  Claim C1. On a secondary chain whose headers have slots that do not decrease with the
  block number, \<^verbatim>\<open>findBlockByTimestamp\<close> returns, for every target, the smallest block
  number whose logical time is beyond the target: every block below the result that has
  a logical time is at or before the target, the result is beyond the target when it is
  a finalized block, and the result is the finalized height plus one when no finalized
  block is beyond the target. With several blocks of the time of the target, the result
  is the first block beyond them. The headers with slots are those of the blocks from 1
  to the finalized head: the genesis block, block 0, has no pre-runtime digest and so no
  logical time.
\<close>

theorem findBlockByTimestamp_smallest_beyond_target:
  assumes genesis: "logicalTime w 0 = None"
    and slots: "\<forall>n. 1 \<le> n \<and> n \<le> int (finalizedHead w (clock p)) \<longrightarrow> logicalTime w n \<noteq> None"
    and mono: "\<forall>m n a b. 1 \<le> m \<and> m \<le> n \<and> n \<le> int (finalizedHead w (clock p)) \<and>
           logicalTime w m = Some a \<and> logicalTime w n = Some b \<longrightarrow> a \<le> b"
  shows "\<exists>r. fst (findBlockByTimestamp w target p) = Inr r \<and>
           1 \<le> r \<and> r \<le> int (finalizedHead w (clock p)) + 1 \<and>
           (\<forall>n a. n < r \<and> logicalTime w n = Some a \<longrightarrow> a \<le> target) \<and>
           (r \<le> int (finalizedHead w (clock p)) \<longrightarrow> (\<exists>a. logicalTime w r = Some a \<and> target < a)) \<and>
           ((\<forall>n a. n \<le> int (finalizedHead w (clock p)) \<and> logicalTime w n = Some a
                \<longrightarrow> a \<le> target)
              \<longrightarrow> r = int (finalizedHead w (clock p)) + 1)"
proof -
  have "\<exists>r p'. findBlockByTimestamp w target p = (Inr r, p') \<and>
           1 \<le> r \<and> r \<le> int (finalizedHead w (clock p)) + 1 \<and>
           cacheEntry p' = cacheEntry p \<and> clock p' = clock p + 1 \<and>
           (\<forall>n a. 1 \<le> n \<and> n < r \<and> logicalTime w n = Some a \<longrightarrow> a \<le> target) \<and>
           (\<forall>n a. r \<le> n \<and> n \<le> int (finalizedHead w (clock p)) \<and> logicalTime w n = Some a
                    \<longrightarrow> target < a)"
  proof (rule findBlockByTimestamp_search)
    show "\<And>n. 1 \<le> n \<Longrightarrow> n \<le> int (finalizedHead w (clock p)) \<Longrightarrow> logicalTime w n \<noteq> None"
      using slots by blast
    show "\<And>m n a b. 1 \<le> m \<Longrightarrow> m \<le> n \<Longrightarrow> n \<le> int (finalizedHead w (clock p)) \<Longrightarrow>
           logicalTime w m = Some a \<Longrightarrow> logicalTime w n = Some b \<Longrightarrow> a \<le> b"
      using mono by blast
  qed
  then obtain r p' where r: "findBlockByTimestamp w target p = (Inr r, p')"
    "1 \<le> r" "r \<le> int (finalizedHead w (clock p)) + 1"
    "\<forall>n a. 1 \<le> n \<and> n < r \<and> logicalTime w n = Some a \<longrightarrow> a \<le> target"
    "\<forall>n a. r \<le> n \<and> n \<le> int (finalizedHead w (clock p)) \<and> logicalTime w n = Some a \<longrightarrow> target < a"
    by blast
  have below: "\<forall>n a. n < r \<and> logicalTime w n = Some a \<longrightarrow> a \<le> target"
  proof (intro allI impI)
    fix n a assume na: "n < r \<and> logicalTime w n = Some a"
    then have "1 \<le> n" using logicalTime_before_block_1[OF genesis] by blast
    with na r(4) show "a \<le> target" by blast
  qed
  have beyond: "\<exists>a. logicalTime w r = Some a \<and> target < a" if "r \<le> int (finalizedHead w (clock p))"
  proof -
    from slots r(2) that obtain a where a: "logicalTime w r = Some a" by blast
    with r(5) that have "target < a" by blast
    with a show ?thesis by blast
  qed
  have none: "r = int (finalizedHead w (clock p)) + 1"
    if "\<forall>n a. n \<le> int (finalizedHead w (clock p)) \<and> logicalTime w n = Some a \<longrightarrow> a \<le> target"
  proof (rule ccontr)
    assume "r \<noteq> int (finalizedHead w (clock p)) + 1"
    with r(3) have le: "r \<le> int (finalizedHead w (clock p))" by simp
    from beyond[OF le] obtain a where a: "logicalTime w r = Some a" "target < a" by blast
    from that le a(1) have "a \<le> target" by blast
    with a(2) show False by simp
  qed
  have f1: "fst (findBlockByTimestamp w target p) = Inr r" using r(1) by simp
  have f5: "r \<le> int (finalizedHead w (clock p)) \<longrightarrow> (\<exists>a. logicalTime w r = Some a \<and> target < a)"
    using beyond by blast
  have f6: "(\<forall>n a. n \<le> int (finalizedHead w (clock p)) \<and> logicalTime w n = Some a
                \<longrightarrow> a \<le> target)
              \<longrightarrow> r = int (finalizedHead w (clock p)) + 1"
    using none by blast
  from f1 r(2) r(3) below f5 f6 show ?thesis by blast
qed

lemma exampleWorld_logicalTime:
  "1 \<le> n \<Longrightarrow> logicalTime exampleWorld n = Some ((n + 10) * 20)"
  by (simp add: logicalTime_def getHeaderData_def getHeaderByNumber_def exampleWorld_def
      getSlotFromHeader_def)

theorem findBlockByTimestamp_smallest_beyond_target_witness:
  "fst (findBlockByTimestamp exampleWorld 250 emptyProcess) = Inr 3 \<and>
   logicalTime exampleWorld 0 = None \<and>
   logicalTime exampleWorld 2 = Some 240 \<and> logicalTime exampleWorld 3 = Some 260"
proof -
  have h0: "logicalTime exampleWorld 0 = None"
    by (simp add: logicalTime_def getHeaderData_def getHeaderByNumber_def exampleWorld_def
        getSlotFromHeader_def)
  have h1: "\<forall>n. 1 \<le> n \<and> n \<le> int (finalizedHead exampleWorld (clock emptyProcess))
        \<longrightarrow> logicalTime exampleWorld n \<noteq> None"
    by (simp add: exampleWorld_logicalTime)
  have h2: "\<forall>m n a b. 1 \<le> m \<and> m \<le> n \<and> n \<le> int (finalizedHead exampleWorld (clock emptyProcess)) \<and>
        logicalTime exampleWorld m = Some a \<and> logicalTime exampleWorld n = Some b \<longrightarrow> a \<le> b"
  proof (intro allI impI)
    fix m n a b
    assume a: "1 \<le> m \<and> m \<le> n \<and> n \<le> int (finalizedHead exampleWorld (clock emptyProcess)) \<and>
        logicalTime exampleWorld m = Some a \<and> logicalTime exampleWorld n = Some b"
    then have "1 \<le> m" "1 \<le> n" "m \<le> n" by auto
    with a show "a \<le> b" by (simp add: exampleWorld_logicalTime)
  qed
  from findBlockByTimestamp_smallest_beyond_target[OF h0 h1 h2, of 250]
  obtain r where r: "fst (findBlockByTimestamp exampleWorld 250 emptyProcess) = Inr r"
    "1 \<le> r"
    "\<forall>n a. n < r \<and> logicalTime exampleWorld n = Some a \<longrightarrow> a \<le> 250"
    "r \<le> int (finalizedHead exampleWorld (clock emptyProcess)) \<longrightarrow>
       (\<exists>a. logicalTime exampleWorld r = Some a \<and> 250 < a)"
    by blast
  have fin: "int (finalizedHead exampleWorld (clock emptyProcess)) = 6"
    by (simp add: exampleWorld_def emptyProcess_def)
  have t3: "logicalTime exampleWorld 3 = Some 260" by (simp add: exampleWorld_logicalTime)
  have t2: "logicalTime exampleWorld 2 = Some 240" by (simp add: exampleWorld_logicalTime)
  have "\<not> 3 < r"
  proof
    assume "3 < r"
    with t3 have "3 < r \<and> logicalTime exampleWorld 3 = Some 260" by simp
    with r(3) have "(260::int) \<le> 250" by blast
    then show False by simp
  qed
  moreover have "\<not> r < 3"
  proof
    assume lt: "r < 3"
    then have "r \<le> int (finalizedHead exampleWorld (clock emptyProcess))" using fin by simp
    with r(4) obtain a where a: "logicalTime exampleWorld r = Some a" "250 < a" by blast
    from a(1) r(2) have "a = (r + 10) * 20" by (simp add: exampleWorld_logicalTime)
    with a(2) lt show False by simp
  qed
  ultimately have "r = 3" by simp
  with r(1) h0 t2 t3 show ?thesis by blast
qed

section \<open>Merging secondary data into primary blocks\<close>

lemma find_first_match:
  "\<forall>d\<in>set pre. \<not> P d \<Longrightarrow> P m \<Longrightarrow> find P (pre @ m # post) = Some m"
  by (induction pre) auto

lemma composeChainData_nth:
  "i < length baseChainData \<Longrightarrow>
   composeChainData baseChainData cdeData ! i = composeBlock cdeData (baseChainData ! i)"
  by (simp add: composeChainData_def)

text \<open>
  Claim C4. For every list of primary blocks and every list of secondary records,
  \<^verbatim>\<open>composeChainData\<close> keeps the blocks in their places; a block that no record matches
  is returned as it is; for a block with a matching record the datums of the record are
  put after the block's own, nothing lost and nothing reordered; an empty or absent own
  list gives the datums of the record, and an empty list of the record leaves the own
  list as it is.
\<close>

theorem composeChainData_concatenation:
  assumes "i < length baseChainData"
  shows "length (composeChainData baseChainData cdeData) = length baseChainData \<and>
     ((\<forall>d\<in>set cdeData. availData.blockNumber d \<noteq> Some (chainData.blockNumber (baseChainData ! i))) \<longrightarrow>
        composeChainData baseChainData cdeData ! i = baseChainData ! i) \<and>
     (\<forall>m extra.
        find (\<lambda>d. availData.blockNumber d = Some (chainData.blockNumber (baseChainData ! i))) cdeData = Some m \<and>
        availData.extensionDatums m = Some extra \<longrightarrow>
          (\<forall>own. chainData.extensionDatums (baseChainData ! i) = Some own \<longrightarrow>
             composeChainData baseChainData cdeData ! i =
               (baseChainData ! i)\<lparr>chainData.extensionDatums := Some (own @ extra)\<rparr>) \<and>
          (chainData.extensionDatums (baseChainData ! i) = Some [] \<or>
           chainData.extensionDatums (baseChainData ! i) = None \<longrightarrow>
             composeChainData baseChainData cdeData ! i =
               (baseChainData ! i)\<lparr>chainData.extensionDatums := Some extra\<rparr>) \<and>
          (extra = [] \<and> chainData.extensionDatums (baseChainData ! i) \<noteq> None \<longrightarrow>
             composeChainData baseChainData cdeData ! i = baseChainData ! i))"
proof (intro conjI)
  show "length (composeChainData baseChainData cdeData) = length baseChainData"
    by (simp add: composeChainData_def)
  show "(\<forall>d\<in>set cdeData. availData.blockNumber d \<noteq> Some (chainData.blockNumber (baseChainData ! i))) \<longrightarrow>
        composeChainData baseChainData cdeData ! i = baseChainData ! i"
    using assms by (simp add: composeChainData_nth composeBlock_def find_None_iff[THEN iffD2])
  show "\<forall>m extra.
        find (\<lambda>d. availData.blockNumber d = Some (chainData.blockNumber (baseChainData ! i))) cdeData = Some m \<and>
        availData.extensionDatums m = Some extra \<longrightarrow>
          (\<forall>own. chainData.extensionDatums (baseChainData ! i) = Some own \<longrightarrow>
             composeChainData baseChainData cdeData ! i =
               (baseChainData ! i)\<lparr>chainData.extensionDatums := Some (own @ extra)\<rparr>) \<and>
          (chainData.extensionDatums (baseChainData ! i) = Some [] \<or>
           chainData.extensionDatums (baseChainData ! i) = None \<longrightarrow>
             composeChainData baseChainData cdeData ! i =
               (baseChainData ! i)\<lparr>chainData.extensionDatums := Some extra\<rparr>) \<and>
          (extra = [] \<and> chainData.extensionDatums (baseChainData ! i) \<noteq> None \<longrightarrow>
             composeChainData baseChainData cdeData ! i = baseChainData ! i)"
    using assms by (auto simp: composeChainData_nth composeBlock_def)
qed

theorem composeChainData_concatenation_witness:
  "composeChainData
     [(exampleBlock 4 240)\<lparr>chainData.extensionDatums := Some [wrapTransaction ''evm'' 4 ''own'']\<rparr>,
      (exampleBlock 5 250)\<lparr>chainData.extensionDatums := Some []\<rparr>,
      exampleBlock 6 260]
     [exampleRecord 4 ''x'', exampleRecord 5 ''y''] ! 0
   = (exampleBlock 4 240)\<lparr>chainData.extensionDatums :=
        Some [wrapTransaction ''evm'' 4 ''own'', wrapTransaction ''avail'' 4 ''x'']\<rparr> \<and>
   composeChainData
     [(exampleBlock 4 240)\<lparr>chainData.extensionDatums := Some [wrapTransaction ''evm'' 4 ''own'']\<rparr>,
      (exampleBlock 5 250)\<lparr>chainData.extensionDatums := Some []\<rparr>,
      exampleBlock 6 260]
     [exampleRecord 4 ''x'', exampleRecord 5 ''y''] ! 1
   = (exampleBlock 5 250)\<lparr>chainData.extensionDatums := Some [wrapTransaction ''avail'' 5 ''y'']\<rparr> \<and>
   composeChainData
     [(exampleBlock 4 240)\<lparr>chainData.extensionDatums := Some [wrapTransaction ''evm'' 4 ''own'']\<rparr>,
      (exampleBlock 5 250)\<lparr>chainData.extensionDatums := Some []\<rparr>,
      exampleBlock 6 260]
     [exampleRecord 4 ''x'', exampleRecord 5 ''y''] ! 2
   = exampleBlock 6 260"
proof -
  let ?bs = "[(exampleBlock 4 240)\<lparr>chainData.extensionDatums := Some [wrapTransaction ''evm'' 4 ''own'']\<rparr>,
      (exampleBlock 5 250)\<lparr>chainData.extensionDatums := Some []\<rparr>,
      exampleBlock 6 260]"
  let ?cde = "[exampleRecord 4 ''x'', exampleRecord 5 ''y'']"
  have l0: "0 < length ?bs" and l1: "1 < length ?bs" and l2: "2 < length ?bs" by simp_all
  have a: "composeChainData ?bs ?cde ! 0 = (exampleBlock 4 240)\<lparr>chainData.extensionDatums :=
        Some [wrapTransaction ''evm'' 4 ''own'', wrapTransaction ''avail'' 4 ''x'']\<rparr>"
    using composeChainData_concatenation[OF l0, of ?cde]
    by (simp add: exampleBlock_def exampleRecord_def)
  have b: "composeChainData ?bs ?cde ! 1 =
      (exampleBlock 5 250)\<lparr>chainData.extensionDatums := Some [wrapTransaction ''avail'' 5 ''y'']\<rparr>"
    using composeChainData_concatenation[OF l1, of ?cde]
    by (simp add: exampleBlock_def exampleRecord_def)
  have c: "composeChainData ?bs ?cde ! 2 = exampleBlock 6 260"
    using composeChainData_concatenation[OF l2, of ?cde]
    by (simp add: exampleBlock_def exampleRecord_def)
  from a b c show ?thesis by blast
qed

text \<open>
  Claim C5. For every primary block, \<^verbatim>\<open>composeChainData\<close> merges the first record of
  the list whose block number is the block's, and that record only: the records after
  it have no effect on the block, so the datums of a later record of the same block
  number are dropped.
\<close>

theorem composeChainData_first_record_only:
  assumes "i < length baseChainData"
    and "\<forall>d\<in>set pre. availData.blockNumber d \<noteq> Some (chainData.blockNumber (baseChainData ! i))"
    and "availData.blockNumber m = Some (chainData.blockNumber (baseChainData ! i))"
  shows "composeChainData baseChainData (pre @ m # post) ! i = composeChainData baseChainData [m] ! i \<and>
         (\<forall>own extra. chainData.extensionDatums (baseChainData ! i) = Some own \<and>
                       availData.extensionDatums m = Some extra \<longrightarrow>
            chainData.extensionDatums (composeChainData baseChainData (pre @ m # post) ! i)
              = Some (own @ extra))"
proof -
  have f: "find (\<lambda>d. availData.blockNumber d = Some (chainData.blockNumber (baseChainData ! i)))
             (pre @ m # post) = Some m"
    using assms(2,3) by (intro find_first_match) auto
  show ?thesis
    using assms(1,3) f by (simp add: composeChainData_nth composeBlock_def)
qed

theorem composeChainData_first_record_only_witness:
  "composeChainData [(exampleBlock 4 240)\<lparr>chainData.extensionDatums := Some []\<rparr>]
     [exampleRecord 7 ''other'', exampleRecord 4 ''first'', exampleRecord 4 ''second''] ! 0
   = (exampleBlock 4 240)\<lparr>chainData.extensionDatums := Some [wrapTransaction ''avail'' 4 ''first'']\<rparr>"
proof -
  let ?bs = "[(exampleBlock 4 240)\<lparr>chainData.extensionDatums := Some []\<rparr>]"
  have h1: "0 < length ?bs" by simp
  have h2: "\<forall>d\<in>set [exampleRecord 7 ''other''].
              availData.blockNumber d \<noteq> Some (chainData.blockNumber (?bs ! 0))"
    by (simp add: exampleRecord_def exampleBlock_def)
  have h3: "availData.blockNumber (exampleRecord 4 ''first'') = Some (chainData.blockNumber (?bs ! 0))"
    by (simp add: exampleRecord_def exampleBlock_def)
  from composeChainData_first_record_only[OF h1 h2 h3, of "[exampleRecord 4 ''second'']"]
  have "composeChainData ?bs
          [exampleRecord 7 ''other'', exampleRecord 4 ''first'', exampleRecord 4 ''second''] ! 0
        = composeChainData ?bs [exampleRecord 4 ''first''] ! 0"
    by simp
  then show ?thesis
    by (simp add: composeChainData_def composeBlock_def exampleRecord_def exampleBlock_def)
qed


section \<open>Reading the submitted data\<close>

lemma getSubmittedDataLoop_answered:
  "(\<And>n. cur \<le> n \<Longrightarrow> n \<le> to \<Longrightarrow> \<exists>r. lightClient w n = Some r \<and> (status r = 200 \<longrightarrow> body r \<noteq> None)) \<Longrightarrow>
   getSubmittedDataLoop w net cur to data p =
     (Inr (data @ concat (map (expectedRecords w net) [cur..to])),
      p\<lparr>trace := trace p @ map LightClientGet [cur..to]\<rparr>)"
proof (induction w net cur to data p rule: getSubmittedDataLoop.induct)
  case (1 w net cur to data p)
  show ?case
  proof (cases "cur \<le> to")
    case False
    then show ?thesis by (simp add: getSubmittedDataLoop.simps[of w net cur to])
  next
    case True
    from "1.prems"[of cur] True obtain r where r: "lightClient w cur = Some r"
      and b: "status r = 200 \<longrightarrow> body r \<noteq> None" by auto
    have rest: "\<And>n. cur + 1 \<le> n \<Longrightarrow> n \<le> to \<Longrightarrow>
        \<exists>r. lightClient w n = Some r \<and> (status r = 200 \<longrightarrow> body r \<noteq> None)"
      using "1.prems" by simp
    have up: "[cur..to] = cur # [cur + 1..to]" using True by (simp add: upto_rec1)
    show ?thesis
    proof (cases "status r = 200")
      case False
      with True r "1.IH"(1)[OF True r _ rest] show ?thesis
        by (simp add: getSubmittedDataLoop.simps[of w net cur to] up expectedRecords_def call_def)
    next
      case s: True
      with b obtain bd where bd: "body r = Some bd" by auto
      show ?thesis
      proof (cases "data_transactions bd = []")
        case True
        with \<open>cur \<le> to\<close> r s bd "1.IH"(3)[OF \<open>cur \<le> to\<close> r _ bd _ rest] show ?thesis
          by (simp add: getSubmittedDataLoop.simps[of w net cur to] up expectedRecords_def call_def)
      next
        case False
        with \<open>cur \<le> to\<close> r s bd "1.IH"(2)[OF \<open>cur \<le> to\<close> r _ bd _ rest] show ?thesis
          by (simp add: getSubmittedDataLoop.simps[of w net cur to] up expectedRecords_def call_def
              wrapTransaction_def)
      qed
    qed
  qed
qed

lemma getSubmittedData_answered:
  assumes "\<forall>n. from \<le> n \<and> n \<le> to \<longrightarrow>
             (\<exists>r. lightClient w n = Some r \<and> (status r = 200 \<longrightarrow> body r \<noteq> None))"
  shows "getSubmittedData w from to net p =
           (Inr (concat (map (expectedRecords w net) [from..to])),
            p\<lparr>trace := trace p @ map LightClientGet [from..to]\<rparr>)"
proof -
  have "getSubmittedDataLoop w net from to [] p =
     (Inr ([] @ concat (map (expectedRecords w net) [from..to])),
      p\<lparr>trace := trace p @ map LightClientGet [from..to]\<rparr>)"
  proof (rule getSubmittedDataLoop_answered)
    fix n assume "from \<le> n" "n \<le> to"
    with assms show "\<exists>r. lightClient w n = Some r \<and> (status r = 200 \<longrightarrow> body r \<noteq> None)"
      by blast
  qed
  then show ?thesis by (simp add: getSubmittedData_def)
qed

text \<open>
  Claim C8. For every inclusive range of blocks each of which the data endpoint answers
  (an answer of 200 carrying the JSON body), \<^verbatim>\<open>getSubmittedData\<close> asks for the blocks in
  ascending order, fails for none, and returns the records of the blocks in that order:
  no record for a block whose answer is not 200, no record for a block whose answer of
  200 has no transaction, and one record for a block whose answer of 200 has
  transactions, each transaction wrapped as a generic datum of the network.
\<close>

theorem getSubmittedData_records:
  assumes "\<forall>n. from \<le> n \<and> n \<le> to \<longrightarrow>
             (\<exists>r. lightClient w n = Some r \<and> (status r = 200 \<longrightarrow> body r \<noteq> None))"
  shows "fst (getSubmittedData w from to net p)
           = Inr (concat (map (expectedRecords w net) [from..to])) \<and>
         trace (snd (getSubmittedData w from to net p))
           = trace p @ map LightClientGet [from..to]"
  using getSubmittedData_answered[OF assms] by simp

lemma mixed_answered:
  "\<exists>r. lightClient mixedLightClientWorld n = Some r \<and> (status r = 200 \<longrightarrow> body r \<noteq> None)"
  by (simp add: mixedLightClientWorld_def)

theorem getSubmittedData_records_witness:
  "fst (getSubmittedData mixedLightClientWorld 1 3 ''avail'' emptyProcess)
     = Inr [\<lparr>availData.blockNumber = Some 3,
              availData.extensionDatums =
                Some [wrapTransaction ''avail'' 3 ''a'', wrapTransaction ''avail'' 3 ''b'']\<rparr>] \<and>
   trace (snd (getSubmittedData mixedLightClientWorld 1 3 ''avail'' emptyProcess))
     = [LightClientGet 1, LightClientGet 2, LightClientGet 3]"
proof -
  have h: "\<forall>n. 1 \<le> n \<and> n \<le> 3 \<longrightarrow>
             (\<exists>r. lightClient mixedLightClientWorld n = Some r \<and> (status r = 200 \<longrightarrow> body r \<noteq> None))"
    using mixed_answered by blast
  have u: "[1..3] = [1, 2, (3::int)]" by (simp add: upto_rec1)
  show ?thesis
    using getSubmittedData_records[OF h, of "''avail''" emptyProcess]
    by (simp add: u expectedRecords_def mixedLightClientWorld_def wrapTransaction_def emptyProcess_def)
qed


section \<open>The presync\<close>

lemma toPresync_fun:
  "toPresync chainName =
     (\<lambda>d. \<lparr>presyncChainData.extensionDatums = availData.extensionDatums d,
            networkType = AVAIL, presyncChainData.network = chainName,
            presyncChainData.blockNumber = availData.blockNumber d\<rparr>)"
  by (rule ext) (simp add: toPresync_def)

text \<open>
  Claim C7, as amended. For a request for this network, \<^verbatim>\<open>readPresyncData\<close> works on
  the range from \<open>max from 0\<close> to \<open>min to (startingBlockHeight - 1)\<close>. If the requested
  lower bound has reached the starting height, it returns the wrapped funnel's answer
  with the marker that the presync has finished for this network, and makes no call. If
  not and the clamped range is empty, it returns the wrapped funnel's answer as it is,
  without an entry for this network, and makes no call. If not and the clamped range is
  not empty, it asks the data endpoint for the blocks of the clamped range and for no
  other, and returns their records under the name of the network, each tagged with it.
\<close>

theorem readPresyncData_clamped_range:
  assumes "find (\<lambda>arg. argNetwork arg = chainName) args = Some arg"
    and "cacheEntry p = Some s"
  shows "(argFrom arg \<ge> startingBlockHeight s \<longrightarrow>
            readPresyncData w chainName baseData args p
              = (Inr (baseData(chainName \<mapsto> FUNNEL_PRESYNC_FINISHED)), p)) \<and>
         (argFrom arg < startingBlockHeight s \<and>
          max (argFrom arg) 0 > min (argTo arg) (startingBlockHeight s - 1) \<longrightarrow>
            readPresyncData w chainName baseData args p = (Inr baseData, p)) \<and>
         (argFrom arg < startingBlockHeight s \<and>
          max (argFrom arg) 0 \<le> min (argTo arg) (startingBlockHeight s - 1) \<and>
          (\<forall>n. max (argFrom arg) 0 \<le> n \<and> n \<le> min (argTo arg) (startingBlockHeight s - 1) \<longrightarrow>
             (\<exists>r. lightClient w n = Some r \<and> (status r = 200 \<longrightarrow> body r \<noteq> None))) \<longrightarrow>
            readPresyncData w chainName baseData args p
              = (Inr (baseData(chainName \<mapsto> PresyncData
                   (map (\<lambda>d. \<lparr>presyncChainData.extensionDatums = availData.extensionDatums d,
                               networkType = AVAIL, presyncChainData.network = chainName,
                               presyncChainData.blockNumber = availData.blockNumber d\<rparr>)
                      (concat (map (expectedRecords w chainName)
                         [max (argFrom arg) 0 .. min (argTo arg) (startingBlockHeight s - 1)]))))),
                 p\<lparr>trace := trace p @ map LightClientGet
                         [max (argFrom arg) 0 .. min (argTo arg) (startingBlockHeight s - 1)]\<rparr>))"
proof (intro conjI impI)
  assume "argFrom arg \<ge> startingBlockHeight s"
  then show "readPresyncData w chainName baseData args p
              = (Inr (baseData(chainName \<mapsto> FUNNEL_PRESYNC_FINISHED)), p)"
    using assms by (simp add: readPresyncData_def getState_def)
next
  assume "argFrom arg < startingBlockHeight s \<and>
          max (argFrom arg) 0 > min (argTo arg) (startingBlockHeight s - 1)"
  then show "readPresyncData w chainName baseData args p = (Inr baseData, p)"
    using assms by (simp add: readPresyncData_def getState_def Let_def)
next
  assume a: "argFrom arg < startingBlockHeight s \<and>
          max (argFrom arg) 0 \<le> min (argTo arg) (startingBlockHeight s - 1) \<and>
          (\<forall>n. max (argFrom arg) 0 \<le> n \<and> n \<le> min (argTo arg) (startingBlockHeight s - 1) \<longrightarrow>
             (\<exists>r. lightClient w n = Some r \<and> (status r = 200 \<longrightarrow> body r \<noteq> None)))"
  then have ans: "\<forall>n. max (argFrom arg) 0 \<le> n \<and> n \<le> min (argTo arg) (startingBlockHeight s - 1) \<longrightarrow>
             (\<exists>r. lightClient w n = Some r \<and> (status r = 200 \<longrightarrow> body r \<noteq> None))"
    by blast
  from a have c: "argFrom arg < startingBlockHeight s"
    "\<not> max (argFrom arg) 0 > min (argTo arg) (startingBlockHeight s - 1)" by auto
  show "readPresyncData w chainName baseData args p
              = (Inr (baseData(chainName \<mapsto> PresyncData
                   (map (\<lambda>d. \<lparr>presyncChainData.extensionDatums = availData.extensionDatums d,
                               networkType = AVAIL, presyncChainData.network = chainName,
                               presyncChainData.blockNumber = availData.blockNumber d\<rparr>)
                      (concat (map (expectedRecords w chainName)
                         [max (argFrom arg) 0 .. min (argTo arg) (startingBlockHeight s - 1)]))))),
                 p\<lparr>trace := trace p @ map LightClientGet
                         [max (argFrom arg) 0 .. min (argTo arg) (startingBlockHeight s - 1)]\<rparr>)"
    using assms c getSubmittedData_answered[OF ans, of chainName p]
    by (simp add: readPresyncData_def getState_def Let_def toPresync_fun)
qed

theorem readPresyncData_clamped_range_witness:
  "readPresyncData mixedLightClientWorld ''avail'' Map.empty
     [\<lparr>argNetwork = ''evm'', argFrom = 0, argTo = 100\<rparr>,
      \<lparr>argNetwork = ''avail'', argFrom = 48, argTo = 100\<rparr>] presyncProcess
   = (Inr [''avail'' \<mapsto> PresyncData
        [\<lparr>presyncChainData.extensionDatums =
             Some [wrapTransaction ''avail'' 48 ''a'', wrapTransaction ''avail'' 48 ''b''],
           networkType = AVAIL, presyncChainData.network = ''avail'',
           presyncChainData.blockNumber = Some 48\<rparr>,
         \<lparr>presyncChainData.extensionDatums =
             Some [wrapTransaction ''avail'' 49 ''a'', wrapTransaction ''avail'' 49 ''b''],
           networkType = AVAIL, presyncChainData.network = ''avail'',
           presyncChainData.blockNumber = Some 49\<rparr>]],
      presyncProcess\<lparr>trace := [LightClientGet 48, LightClientGet 49]\<rparr>) \<and>
   readPresyncData mixedLightClientWorld ''avail'' Map.empty
     [\<lparr>argNetwork = ''avail'', argFrom = 50, argTo = 100\<rparr>] presyncProcess
   = (Inr [''avail'' \<mapsto> FUNNEL_PRESYNC_FINISHED], presyncProcess)"
proof -
  let ?a = "\<lparr>argNetwork = ''avail'', argFrom = 48, argTo = 100\<rparr>"
  let ?b = "\<lparr>argNetwork = ''avail'', argFrom = 50, argTo = 100\<rparr>"
  have f1: "find (\<lambda>arg. argNetwork arg = ''avail'')
              [\<lparr>argNetwork = ''evm'', argFrom = 0, argTo = 100\<rparr>, ?a] = Some ?a" by simp
  have f2: "find (\<lambda>arg. argNetwork arg = ''avail'') [?b] = Some ?b" by simp
  have st: "cacheEntry presyncProcess = Some (initialize 50)" by (simp add: presyncProcess_def)
  have u: "[48..49] = [48, (49::int)]" by (simp add: upto_rec1)
  have x: "readPresyncData mixedLightClientWorld ''avail'' Map.empty
     [\<lparr>argNetwork = ''evm'', argFrom = 0, argTo = 100\<rparr>, ?a] presyncProcess
   = (Inr [''avail'' \<mapsto> PresyncData
        [\<lparr>presyncChainData.extensionDatums =
             Some [wrapTransaction ''avail'' 48 ''a'', wrapTransaction ''avail'' 48 ''b''],
           networkType = AVAIL, presyncChainData.network = ''avail'',
           presyncChainData.blockNumber = Some 48\<rparr>,
         \<lparr>presyncChainData.extensionDatums =
             Some [wrapTransaction ''avail'' 49 ''a'', wrapTransaction ''avail'' 49 ''b''],
           networkType = AVAIL, presyncChainData.network = ''avail'',
           presyncChainData.blockNumber = Some 49\<rparr>]],
      presyncProcess\<lparr>trace := [LightClientGet 48, LightClientGet 49]\<rparr>)"
    using readPresyncData_clamped_range[OF f1 st, of mixedLightClientWorld Map.empty]
    by (simp add: initialize_def u expectedRecords_def mixedLightClientWorld_def
        wrapTransaction_def presyncProcess_def)
  have y: "readPresyncData mixedLightClientWorld ''avail'' Map.empty [?b] presyncProcess
   = (Inr [''avail'' \<mapsto> FUNNEL_PRESYNC_FINISHED], presyncProcess)"
    using readPresyncData_clamped_range[OF f2 st, of mixedLightClientWorld Map.empty]
    by (simp add: initialize_def)
  from x y show ?thesis by blast
qed

text \<open>
  A request from 5 to 3 with the starting height 50: the lower bound has not reached the
  starting height, and the answer has no entry for the network.
\<close>

theorem readPresyncData_empty_range_counterexample:
  "readPresyncData mixedLightClientWorld ''avail'' Map.empty
     [\<lparr>argNetwork = ''avail'', argFrom = 5, argTo = 3\<rparr>] presyncProcess
   = (Inr Map.empty, presyncProcess)"
  by (simp add: readPresyncData_def getState_def presyncProcess_def initialize_def)


section \<open>Recovering the state\<close>

lemma updateLatestBlock_effect:
  assumes "cacheEntry p = Some s" and "updateLatestBlock w config p = (r, p')"
  shows "\<exists>s'. cacheEntry p' = Some s' \<and> s'\<lparr>latestBlock := latestBlock s\<rparr> = s \<and>
           clock p' = clock p + 1 \<and>
           trace p' = trace p @
             [ChainGetFinalizedHead,
              ChainGetHeader (max (int (finalizedHead w (clock p))
                 - (case confirmationDepth config of None \<Rightarrow> 0 | Some c \<Rightarrow> c)) 1)]"
  using assms
  by (auto simp: updateLatestBlock_def getState_def Let_def call_def modifyState_def
      split: sum.splits)

lemma recoverState_initialized:
  assumes "initialized p"
  shows "recoverState w config startingHeight p =
           (case updateLatestBlock w config p of
              (Inl e, p3) \<Rightarrow> (Inl e, p3)
            | (Inr n, p3) \<Rightarrow> (Inr (), p3))"
  using assms by (simp add: recoverState_def)

lemma recoverState_establishes:
  assumes "recoverState w config startingHeight p = (Inr u, p')"
  shows "initialized p'"
proof (cases "initialized p")
  case True
  then obtain s where s: "cacheEntry p = Some s" by (auto simp: initialized_def)
  obtain r1 p1 where r1: "updateLatestBlock w config p = (r1, p1)"
    by (cases "updateLatestBlock w config p")
  from assms r1 have "p' = p1"
    by (simp add: recoverState_initialized[OF True] split: sum.splits)
  with updateLatestBlock_effect[OF s r1] show ?thesis
    by (auto simp: initialized_def)
next
  case False
  from assms False have "\<exists>p2 s n. cacheEntry p2 = Some s \<and>
      updateLatestBlock w config p2 = (Inr n, p')"
    by (force simp: recoverState_def Let_def split: option.splits sum.splits prod.splits)
  then obtain p2 s n where p2: "cacheEntry p2 = Some s"
    "updateLatestBlock w config p2 = (Inr n, p')" by blast
  from updateLatestBlock_effect[OF p2] show ?thesis by (auto simp: initialized_def)
qed

lemma exampleWorld_header:
  "1 \<le> n \<Longrightarrow> getHeaderData exampleWorld n = Inr \<lparr>number = n, hash = ''h'', slot = n + 10\<rparr>"
  by (simp add: getHeaderData_def getHeaderByNumber_def exampleWorld_def getSlotFromHeader_def)

lemma exampleWorld_head: "finalizedHead exampleWorld k = 6 + k"
  by (simp add: exampleWorld_def)

lemma exampleWorld_web3: "web3Block exampleWorld n = Some (200 + 10 * n)"
  by (simp add: exampleWorld_def)

lemma exampleConfig_delay: "applyDelay exampleConfig t = max t 0"
  by (simp add: applyDelay_def exampleConfig_def)

lemma exampleConfig_fields:
  "confirmationDepth exampleConfig = None" "funnelBlockGroupSize exampleConfig = 100"
  by (simp_all add: exampleConfig_def)

lemma recoverState_example:
  "recoverState exampleWorld exampleConfig 3 emptyProcess =
     (Inr (),
      \<lparr>cacheEntry = Some \<lparr>latestBlock = Some \<lparr>number = 7, hash = ''h'', slot = 17\<rparr>,
                          startingBlockHeight = 2, lastMaxSlot = 0, lastBlock = None,
                          bufferedChainData = [], timestampToBlockNumber = []\<rparr>,
       clock = 2,
       trace = [Web3GetBlock 3, CreateApi, ChainGetFinalizedHead, ChainGetHeader 4,
                ChainGetHeader 2, ChainGetHeader 1, ChainGetFinalizedHead, ChainGetHeader 7]\<rparr>)"
  by (simp add: recoverState_def initialized_def emptyProcess_def exampleWorld_web3
      exampleConfig_delay findBlockByTimestamp_def exampleWorld_head findBlockLoop.simps
      exampleWorld_header call_def initialize_def updateLatestBlock_def getState_def
      modifyState_def Let_def exampleConfig_fields)

lemma recoveredProcess_value:
  "recoveredProcess =
      \<lparr>cacheEntry = Some \<lparr>latestBlock = Some \<lparr>number = 7, hash = ''h'', slot = 17\<rparr>,
                          startingBlockHeight = 2, lastMaxSlot = 0, lastBlock = None,
                          bufferedChainData = [], timestampToBlockNumber = []\<rparr>,
       clock = 2,
       trace = [Web3GetBlock 3, CreateApi, ChainGetFinalizedHead, ChainGetHeader 4,
                ChainGetHeader 2, ChainGetHeader 1, ChainGetFinalizedHead, ChainGetHeader 7]\<rparr>"
  by (simp add: recoveredProcess_def recoverState_example)

lemma recoverState_again_example:
  "recoverState exampleWorld exampleConfig 3 recoveredProcess =
     (Inr (),
      \<lparr>cacheEntry = Some \<lparr>latestBlock = Some \<lparr>number = 8, hash = ''h'', slot = 18\<rparr>,
                          startingBlockHeight = 2, lastMaxSlot = 0, lastBlock = None,
                          bufferedChainData = [], timestampToBlockNumber = []\<rparr>,
       clock = 3,
       trace = [Web3GetBlock 3, CreateApi, ChainGetFinalizedHead, ChainGetHeader 4,
                ChainGetHeader 2, ChainGetHeader 1, ChainGetFinalizedHead, ChainGetHeader 7,
                ChainGetFinalizedHead, ChainGetHeader 8]\<rparr>)"
  by (simp add: recoveredProcess_value recoverState_def initialized_def
      exampleWorld_head exampleWorld_header call_def updateLatestBlock_def getState_def
      modifyState_def Let_def exampleConfig_fields)

text \<open>
  Claim C10, as amended. On every invocation of \<^verbatim>\<open>recoverState\<close> that finds the state
  initialized, as every invocation after a first one that returned does, the state is
  reused: the starting primary block is not fetched again, the secondary chain is not
  searched again and the state is not initialized again. The calls made are those of
  the one refresh of the head, the state stays initialized, and it is as before but for
  its latest block, which the refresh stores.
\<close>

theorem recoverState_reuses_state:
  assumes "initialized p"
    and "recoverState w config startingHeight p = (r, p')"
  shows "\<exists>s s'. cacheEntry p = Some s \<and> cacheEntry p' = Some s' \<and>
           s'\<lparr>latestBlock := latestBlock s\<rparr> = s \<and>
           initialized p' \<and>
           trace p' = trace p @
             [ChainGetFinalizedHead,
              ChainGetHeader (max (int (finalizedHead w (clock p))
                 - (case confirmationDepth config of None \<Rightarrow> 0 | Some c \<Rightarrow> c)) 1)]"
proof -
  from assms(1) obtain s where s: "cacheEntry p = Some s" by (auto simp: initialized_def)
  obtain r1 p1 where u: "updateLatestBlock w config p = (r1, p1)" by (cases "updateLatestBlock w config p")
  from assms(2) u have "p' = p1"
    by (simp add: recoverState_initialized[OF assms(1)] split: sum.splits)
  with updateLatestBlock_effect[OF s u] s show ?thesis
    by (auto simp: initialized_def)
qed

theorem recoverState_reuses_state_witness:
  "trace (snd (recoverState exampleWorld exampleConfig 3 recoveredProcess))
     = trace recoveredProcess @ [ChainGetFinalizedHead, ChainGetHeader 8] \<and>
   map_option startingBlockHeight (cacheEntry (snd (recoverState exampleWorld exampleConfig 3 recoveredProcess)))
     = map_option startingBlockHeight (cacheEntry recoveredProcess)"
proof -
  have h1: "initialized recoveredProcess"
    by (simp add: initialized_def recoveredProcess_value)
  have h2: "recoverState exampleWorld exampleConfig 3 recoveredProcess
              = (fst (recoverState exampleWorld exampleConfig 3 recoveredProcess),
                 snd (recoverState exampleWorld exampleConfig 3 recoveredProcess))"
    by simp
  from recoverState_reuses_state[OF h1 h2]
  obtain s s' where s: "cacheEntry recoveredProcess = Some s"
    "cacheEntry (snd (recoverState exampleWorld exampleConfig 3 recoveredProcess)) = Some s'"
    "s'\<lparr>latestBlock := latestBlock s\<rparr> = s"
    "trace (snd (recoverState exampleWorld exampleConfig 3 recoveredProcess)) =
       trace recoveredProcess @
         [ChainGetFinalizedHead,
          ChainGetHeader (max (int (finalizedHead exampleWorld (clock recoveredProcess))
             - (case confirmationDepth exampleConfig of None \<Rightarrow> 0 | Some c \<Rightarrow> c)) 1)]"
    by blast
  have d: "max (int (finalizedHead exampleWorld (clock recoveredProcess))
             - (case confirmationDepth exampleConfig of None \<Rightarrow> 0 | Some c \<Rightarrow> c)) 1 = 8"
    by (simp add: exampleWorld_head exampleConfig_fields recoveredProcess_value)
  from s(3) have "startingBlockHeight s' = startingBlockHeight s"
    by (metis availFunnelCacheEntryState.select_convs(2) availFunnelCacheEntryState.surjective
        availFunnelCacheEntryState.update_convs(1))
  with s(1,2,4) d show ?thesis by simp
qed

text \<open>
  The second invocation on the example world: the latest block of the state was block 7
  and is block 8 afterwards.
\<close>

theorem recoverState_refreshes_latestBlock_counterexample:
  "map_option latestBlock (cacheEntry recoveredProcess)
     = Some (Some \<lparr>number = 7, hash = ''h'', slot = 17\<rparr>) \<and>
   map_option latestBlock (cacheEntry (snd (recoverState exampleWorld exampleConfig 3 recoveredProcess)))
     = Some (Some \<lparr>number = 8, hash = ''h'', slot = 18\<rparr>)"
  by (simp add: recoverState_again_example) (simp add: recoveredProcess_value)

section \<open>The resume cursor\<close>

lemma resolveLastBlock_persisted:
  assumes "cacheEntry p = Some s" and "latestProcessed w = Some h"
  shows "resolveLastBlock w config firstBlock p =
           (Inr (max h (startingBlockHeight s - 1)),
            (call DbLatestProcessed p)\<lparr>cacheEntry :=
               Some (s\<lparr>lastBlock := Some (max h (startingBlockHeight s - 1))\<rparr>)\<rparr>)"
  using assms by (simp add: resolveLastBlock_def getState_def Let_def modifyState_def call_def)

lemma resolveLastBlock_searched:
  assumes "cacheEntry p = Some s" and "latestProcessed w = None"
    and "web3Block w (chainData.blockNumber firstBlock - 1) = Some ts"
    and "findBlockByTimestamp w (applyDelay config ts)
           (call (Web3GetBlock (chainData.blockNumber firstBlock - 1)) (call DbLatestProcessed p))
         = (Inr e, p1)"
  shows "resolveLastBlock w config firstBlock p =
           (Inr (e - 1), modifyState (\<lambda>s. s\<lparr>lastBlock := Some (e - 1)\<rparr>) p1)"
  using assms by (simp add: resolveLastBlock_def getState_def)

lemma determineLastBlock_unset:
  assumes "cacheEntry p = Some s" and "lastBlock s = None \<or> lastBlock s = Some 0"
  shows "determineLastBlock w config firstBlock p = resolveLastBlock w config firstBlock p"
  using assms by (auto simp: determineLastBlock_def getState_def)

text \<open>
  Claim C3, as amended. On a call of \<^verbatim>\<open>readData\<close> that finds the cursor \<open>lastBlock\<close>
  unset (or 0), the cursor is determined as follows. If a persisted height is recorded,
  the cursor is the greater of that height and \<open>startingBlockHeight - 1\<close>, so the
  persisted height itself when it is at least \<open>startingBlockHeight - 1\<close>. If none is
  recorded, the primary block before the first block of the batch is fetched, the
  secondary chain is searched for its delayed timestamp, and the cursor is the block
  found minus one.
\<close>

theorem determineLastBlock_cursor:
  assumes "cacheEntry p = Some s" and "lastBlock s = None \<or> lastBlock s = Some 0"
  shows "(\<forall>h. latestProcessed w = Some h \<longrightarrow>
            determineLastBlock w config firstBlock p =
              (Inr (max h (startingBlockHeight s - 1)),
               (call DbLatestProcessed p)\<lparr>cacheEntry :=
                  Some (s\<lparr>lastBlock := Some (max h (startingBlockHeight s - 1))\<rparr>)\<rparr>)) \<and>
         (\<forall>h. latestProcessed w = Some h \<and> h \<ge> startingBlockHeight s - 1 \<longrightarrow>
            fst (determineLastBlock w config firstBlock p) = Inr h) \<and>
         (\<forall>ts e p1. latestProcessed w = None \<and>
            web3Block w (chainData.blockNumber firstBlock - 1) = Some ts \<and>
            findBlockByTimestamp w (applyDelay config ts)
              (call (Web3GetBlock (chainData.blockNumber firstBlock - 1)) (call DbLatestProcessed p))
              = (Inr e, p1) \<longrightarrow>
            determineLastBlock w config firstBlock p =
              (Inr (e - 1), modifyState (\<lambda>s. s\<lparr>lastBlock := Some (e - 1)\<rparr>) p1))"
proof (intro conjI allI impI)
  fix h assume "latestProcessed w = Some h"
  then show "determineLastBlock w config firstBlock p =
              (Inr (max h (startingBlockHeight s - 1)),
               (call DbLatestProcessed p)\<lparr>cacheEntry :=
                  Some (s\<lparr>lastBlock := Some (max h (startingBlockHeight s - 1))\<rparr>)\<rparr>)"
    by (simp add: determineLastBlock_unset[OF assms] resolveLastBlock_persisted[OF assms(1)])
next
  fix h assume "latestProcessed w = Some h \<and> h \<ge> startingBlockHeight s - 1"
  then show "fst (determineLastBlock w config firstBlock p) = Inr h"
    by (simp add: determineLastBlock_unset[OF assms] resolveLastBlock_persisted[OF assms(1)])
next
  fix ts e p1
  assume "latestProcessed w = None \<and>
            web3Block w (chainData.blockNumber firstBlock - 1) = Some ts \<and>
            findBlockByTimestamp w (applyDelay config ts)
              (call (Web3GetBlock (chainData.blockNumber firstBlock - 1)) (call DbLatestProcessed p))
              = (Inr e, p1)"
  then show "determineLastBlock w config firstBlock p =
              (Inr (e - 1), modifyState (\<lambda>s. s\<lparr>lastBlock := Some (e - 1)\<rparr>) p1)"
    by (simp add: determineLastBlock_unset[OF assms] resolveLastBlock_searched[OF assms(1)])
qed

lemma search_example:
  "findBlockByTimestamp exampleWorld 230 (call (Web3GetBlock 3) (call DbLatestProcessed recoveredProcess))
     = (Inr 2, \<lparr>cacheEntry = cacheEntry recoveredProcess, clock = 3,
                trace = trace recoveredProcess @
                  [DbLatestProcessed, Web3GetBlock 3, ChainGetFinalizedHead, ChainGetHeader 5,
                   ChainGetHeader 3, ChainGetHeader 2, ChainGetHeader 1]\<rparr>)"
  by (simp add: recoveredProcess_value findBlockByTimestamp_def exampleWorld_head
      findBlockLoop.simps exampleWorld_header call_def)

theorem determineLastBlock_cursor_witness:
  "fst (determineLastBlock persistedWorld exampleConfig (exampleBlock 4 240) recoveredProcess) = Inr 5 \<and>
   fst (determineLastBlock exampleWorld exampleConfig (exampleBlock 4 240) recoveredProcess) = Inr 1"
proof -
  let ?s = "\<lparr>latestBlock = Some \<lparr>number = 7, hash = ''h'', slot = 17\<rparr>,
            startingBlockHeight = 2, lastMaxSlot = 0, lastBlock = None,
            bufferedChainData = [], timestampToBlockNumber = []\<rparr>"
  have h1: "cacheEntry recoveredProcess = Some ?s" by (simp add: recoveredProcess_value)
  have h2: "lastBlock ?s = None \<or> lastBlock ?s = Some 0" by simp
  have a: "fst (determineLastBlock persistedWorld exampleConfig (exampleBlock 4 240) recoveredProcess)
             = Inr 5"
    using determineLastBlock_cursor[OF h1 h2, of persistedWorld exampleConfig "exampleBlock 4 240"]
    by (simp add: persistedWorld_def)
  have w3: "web3Block exampleWorld (chainData.blockNumber (exampleBlock 4 240) - 1) = Some 230"
    by (simp add: exampleWorld_web3 exampleBlock_def)
  have b: "fst (determineLastBlock exampleWorld exampleConfig (exampleBlock 4 240) recoveredProcess)
             = Inr 1"
    using determineLastBlock_cursor[OF h1 h2, of exampleWorld exampleConfig "exampleBlock 4 240"]
      search_example w3
    by (simp add: exampleWorld_def exampleConfig_delay exampleBlock_def)
  from a b show ?thesis by blast
qed

text \<open>
  On the example world no height is persisted and the cursor is unset after
  \<^verbatim>\<open>recoverState\<close>, whose search for the starting block 3 gave the secondary block 2, the
  starting height of the state. The batch starts at primary block 4, and the cursor is
  determined as 1.
\<close>

theorem determineLastBlock_bootstrap_counterexample:
  "latestProcessed exampleWorld = None \<and>
   map_option lastBlock (cacheEntry recoveredProcess) = Some None \<and>
   fst (findBlockByTimestamp exampleWorld (applyDelay exampleConfig 230)
          (call CreateApi (call (Web3GetBlock 3) emptyProcess))) = Inr 2 \<and>
   map_option startingBlockHeight (cacheEntry recoveredProcess) = Some 2 \<and>
   fst (determineLastBlock exampleWorld exampleConfig (exampleBlock 4 240) recoveredProcess) = Inr 1"
proof -
  have a: "latestProcessed exampleWorld = None" by (simp add: exampleWorld_def)
  have b: "map_option lastBlock (cacheEntry recoveredProcess) = Some None"
    by (simp add: recoveredProcess_value)
  have c: "fst (findBlockByTimestamp exampleWorld (applyDelay exampleConfig 230)
          (call CreateApi (call (Web3GetBlock 3) emptyProcess))) = Inr 2"
    by (simp add: exampleConfig_delay findBlockByTimestamp_def exampleWorld_head
        findBlockLoop.simps exampleWorld_header call_def emptyProcess_def)
  have d: "map_option startingBlockHeight (cacheEntry recoveredProcess) = Some 2"
    by (simp add: recoveredProcess_value)
  have s: "cacheEntry recoveredProcess \<noteq> None" by (simp add: recoveredProcess_value)
  have w3: "web3Block exampleWorld (chainData.blockNumber (exampleBlock 4 240) - 1) = Some 230"
    by (simp add: exampleWorld_web3 exampleBlock_def)
  have e: "fst (determineLastBlock exampleWorld exampleConfig (exampleBlock 4 240) recoveredProcess)
             = Inr 1"
    using a b s w3 search_example
    by (auto simp: determineLastBlock_def resolveLastBlock_def getState_def exampleConfig_delay
        exampleBlock_def split: option.splits)
  from a b c d e show ?thesis by blast
qed

section \<open>What the stages of readData leave as it is\<close>

lemma findBlockLoop_frame:
  "findBlockLoop w target low high p = (r, p') \<Longrightarrow> cacheEntry p' = cacheEntry p"
proof (induction w target low high p arbitrary: r p' rule: findBlockLoop.induct)
  case (1 w target low high p)
  show ?case
  proof (cases "low < high")
    case False
    with "1.prems" show ?thesis by (simp add: findBlockLoop.simps[of w target low high])
  next
    case True
    show ?thesis
    proof (cases "getHeaderData w ((low + high) div 2)")
      case (Inl e)
      with True "1.prems" show ?thesis
        by (auto simp: findBlockLoop.simps[of w target low high] Let_def call_def)
    next
      case (Inr h)
      show ?thesis
      proof (cases "slot h * 20 \<le> target")
        case le: True
        from True Inr le "1.prems"
        have "findBlockLoop w target ((low + high) div 2 + 1) high
                (call (ChainGetHeader ((low + high) div 2)) p) = (r, p')"
          by (simp add: findBlockLoop.simps[of w target low high] Let_def)
        from "1.IH"(1)[OF True refl Inr le this] show ?thesis by (simp add: call_def)
      next
        case gt: False
        from True Inr gt "1.prems"
        have "findBlockLoop w target low ((low + high) div 2)
                (call (ChainGetHeader ((low + high) div 2)) p) = (r, p')"
          by (simp add: findBlockLoop.simps[of w target low high] Let_def)
        from "1.IH"(2)[OF True refl Inr gt this] show ?thesis by (simp add: call_def)
      qed
    qed
  qed
qed

lemma findBlockByTimestamp_frame:
  "findBlockByTimestamp w target p = (r, p') \<Longrightarrow> cacheEntry p' = cacheEntry p"
  by (auto simp: findBlockByTimestamp_def call_def dest: findBlockLoop_frame)

lemma getSubmittedDataLoop_frame:
  "getSubmittedDataLoop w net cur to data p = (r, p') \<Longrightarrow> cacheEntry p' = cacheEntry p"
proof (induction w net cur to data p arbitrary: r p' rule: getSubmittedDataLoop.induct)
  case (1 w net cur to data p)
  show ?case
  proof (cases "cur \<le> to")
    case False
    with "1.prems" show ?thesis by (simp add: getSubmittedDataLoop.simps[of w net cur to])
  next
    case True
    show ?thesis
    proof (cases "lightClient w cur")
      case None
      with True "1.prems" show ?thesis
        by (auto simp: getSubmittedDataLoop.simps[of w net cur to] call_def)
    next
      case (Some resp)
      show ?thesis
      proof (cases "status resp \<noteq> 200")
        case ne: True
        with True Some "1.prems" "1.IH"(1)[OF True Some ne] show ?thesis
          by (simp add: getSubmittedDataLoop.simps[of w net cur to] call_def)
      next
        case eq: False
        show ?thesis
        proof (cases "body resp")
          case None
          with True Some eq "1.prems" show ?thesis
            by (auto simp: getSubmittedDataLoop.simps[of w net cur to] call_def)
        next
          case b: (Some bd)
          show ?thesis
          proof (cases "0 < length (data_transactions bd)")
            case pos: True
            with True Some eq b "1.prems" "1.IH"(2)[OF True Some eq b pos] show ?thesis
              by (simp add: getSubmittedDataLoop.simps[of w net cur to] call_def)
          next
            case emp: False
            with True Some eq b "1.prems" "1.IH"(3)[OF True Some eq b emp] show ?thesis
              by (simp add: getSubmittedDataLoop.simps[of w net cur to] call_def)
          qed
        qed
      qed
    qed
  qed
qed

lemma getSubmittedData_frame:
  "getSubmittedData w from to net p = (r, p') \<Longrightarrow> cacheEntry p' = cacheEntry p"
  by (simp add: getSubmittedData_def getSubmittedDataLoop_frame)

lemma getMultipleHeaderDataLoop_frame:
  "getMultipleHeaderDataLoop w bn to results p = (r, p') \<Longrightarrow> cacheEntry p' = cacheEntry p"
proof (induction w bn to results p arbitrary: r p' rule: getMultipleHeaderDataLoop.induct)
  case (1 w bn to results p)
  show ?case
  proof (cases "bn < to")
    case False
    with "1.prems" show ?thesis by (simp add: getMultipleHeaderDataLoop.simps[of w bn to])
  next
    case True
    show ?thesis
    proof (cases "getHeaderData w bn")
      case (Inl e)
      with True "1.prems" show ?thesis
        by (auto simp: getMultipleHeaderDataLoop.simps[of w bn to] call_def)
    next
      case (Inr h)
      with True "1.prems" "1.IH"[OF True Inr] show ?thesis
        by (simp add: getMultipleHeaderDataLoop.simps[of w bn to] call_def)
    qed
  qed
qed

text \<open>The headers of a fetch that succeeds are those of the blocks from bn up to to - 1.\<close>

lemma getMultipleHeaderDataLoop_headers:
  "getMultipleHeaderDataLoop w bn to results p = (Inr hs, p') \<Longrightarrow>
   \<exists>new. hs = results @ new \<and> map number new = [bn..to - 1] \<and>
         (\<forall>h\<in>set new. getHeaderData w (number h) = Inr h)"
proof (induction w bn to results p arbitrary: hs p' rule: getMultipleHeaderDataLoop.induct)
  case (1 w bn to results p)
  show ?case
  proof (cases "bn < to")
    case False
    with "1.prems" show ?thesis by (simp add: getMultipleHeaderDataLoop.simps[of w bn to])
  next
    case True
    show ?thesis
    proof (cases "getHeaderData w bn")
      case (Inl e)
      with True "1.prems" show ?thesis
        by (simp add: getMultipleHeaderDataLoop.simps[of w bn to])
    next
      case (Inr h)
      with True "1.prems"
      have "getMultipleHeaderDataLoop w (bn + 1) to (results @ [h]) (call (ChainGetHeader bn) p) = (Inr hs, p')"
        by (simp add: getMultipleHeaderDataLoop.simps[of w bn to])
      from "1.IH"[OF True Inr this] obtain new where new: "hs = (results @ [h]) @ new"
        "map number new = [bn + 1..to - 1]" "\<forall>h\<in>set new. getHeaderData w (number h) = Inr h"
        by blast
      from Inr have nh: "number h = bn"
        by (auto simp: getHeaderData_def getHeaderByNumber_def split: sum.splits if_splits option.splits)
      have up: "[bn..to - 1] = bn # [bn + 1..to - 1]" using True by (simp add: upto_rec1)
      show ?thesis
        using new nh Inr up by (intro exI[of _ "h # new"]) simp
    qed
  qed
qed

lemma updateLatestBlock_frame:
  assumes "cacheEntry p = Some s" and "updateLatestBlock w config p = (r, p')"
  shows "\<exists>lb. cacheEntry p' = Some (s\<lparr>latestBlock := lb\<rparr>)"
proof (cases "getHeaderData w (max (int (finalizedHead w (clock p))
                 - (case confirmationDepth config of None \<Rightarrow> 0 | Some c \<Rightarrow> c)) 1)")
  case (Inl e)
  with assms have "cacheEntry p' = Some s"
    by (auto simp: updateLatestBlock_def getState_def Let_def call_def)
  then have "cacheEntry p' = Some (s\<lparr>latestBlock := latestBlock s\<rparr>)" by simp
  then show ?thesis by blast
next
  case (Inr h)
  with assms have "cacheEntry p' = Some (s\<lparr>latestBlock := Some h\<rparr>)"
    by (auto simp: updateLatestBlock_def getState_def Let_def call_def modifyState_def)
  then show ?thesis by blast
qed

lemma updateLatestBlock_uninitialized:
  "cacheEntry p = None \<Longrightarrow> updateLatestBlock w config p = (Inl UninitializedStateError, p)"
  by (simp add: updateLatestBlock_def getState_def)

lemma waitForBlock_frame:
  "cacheEntry p = Some s \<Longrightarrow> waitForBlock k w config latestNumber p = Some (r, p') \<Longrightarrow>
   \<exists>lb. cacheEntry p' = Some (s\<lparr>latestBlock := lb\<rparr>)"
proof (induction k arbitrary: p s)
  case 0
  then show ?case by simp
next
  case (Suc k)
  obtain r1 p1 where u: "updateLatestBlock w config p = (r1, p1)"
    by (cases "updateLatestBlock w config p")
  from updateLatestBlock_frame[OF Suc.prems(1) u] obtain lb where
    p1: "cacheEntry p1 = Some (s\<lparr>latestBlock := lb\<rparr>)" by blast
  show ?case
  proof (cases r1)
    case (Inl e)
    with Suc.prems(2) u p1 show ?thesis by auto
  next
    case (Inr n)
    show ?thesis
    proof (cases "n = latestNumber")
      case True
      with Suc.prems(2) u Inr have "waitForBlock k w config latestNumber p1 = Some (r, p')" by simp
      from Suc.IH[OF p1 this] obtain lb' where
        "cacheEntry p' = Some (s\<lparr>latestBlock := lb, latestBlock := lb'\<rparr>)" by blast
      then have "cacheEntry p' = Some (s\<lparr>latestBlock := lb'\<rparr>)" by simp
      then show ?thesis by blast
    next
      case False
      with Suc.prems(2) u Inr p1 show ?thesis by auto
    qed
  qed
qed

lemma resolveLastBlock_frame:
  assumes "cacheEntry p = Some s" and "resolveLastBlock w config firstBlock p = (r, p')"
  shows "(\<exists>e. r = Inl e \<and> cacheEntry p' = Some s) \<or>
         (\<exists>l. r = Inr l \<and> cacheEntry p' = Some (s\<lparr>lastBlock := Some l\<rparr>))"
proof (cases "latestProcessed w")
  case (Some h)
  with assms show ?thesis
    by (auto simp: resolveLastBlock_def getState_def Let_def modifyState_def call_def)
next
  case None
  show ?thesis
  proof (cases "web3Block w (chainData.blockNumber firstBlock - 1)")
    case n: None
    with None assms show ?thesis
      by (auto simp: resolveLastBlock_def getState_def call_def)
  next
    case (Some ts)
    obtain r1 p1 where f: "findBlockByTimestamp w (applyDelay config ts)
                            (call (Web3GetBlock (chainData.blockNumber firstBlock - 1))
                               (call DbLatestProcessed p)) = (r1, p1)"
      by (cases "findBlockByTimestamp w (applyDelay config ts)
                            (call (Web3GetBlock (chainData.blockNumber firstBlock - 1))
                               (call DbLatestProcessed p))")
    from findBlockByTimestamp_frame[OF f] assms(1) have c: "cacheEntry p1 = Some s"
      by (simp add: call_def)
    from None Some f assms c show ?thesis
      by (cases r1) (auto simp: resolveLastBlock_def getState_def modifyState_def)
  qed
qed

lemma determineLastBlock_frame:
  assumes "cacheEntry p = Some s" and "determineLastBlock w config firstBlock p = (r, p')"
  shows "(\<exists>e. r = Inl e \<and> cacheEntry p' = Some s) \<or>
         (\<exists>l. r = Inr l \<and> lastBlock s = Some l \<and> cacheEntry p' = Some s) \<or>
         (\<exists>l. r = Inr l \<and> (lastBlock s = None \<or> lastBlock s = Some 0) \<and>
              cacheEntry p' = Some (s\<lparr>lastBlock := Some l\<rparr>))"
proof (cases "lastBlock s = None \<or> lastBlock s = Some 0")
  case True
  with assms have "resolveLastBlock w config firstBlock p = (r, p')"
    by (auto simp: determineLastBlock_def getState_def)
  from resolveLastBlock_frame[OF assms(1) this] True show ?thesis by blast
next
  case False
  with assms show ?thesis
    by (auto simp: determineLastBlock_def getState_def split: option.splits if_splits)
qed

lemma getMultipleHeaderData_frame:
  "getMultipleHeaderData w from to p = (r, p') \<Longrightarrow> cacheEntry p' = cacheEntry p"
  by (simp add: getMultipleHeaderData_def getMultipleHeaderDataLoop_frame)

lemma getMultipleHeaderData_headers:
  "getMultipleHeaderData w from to p = (Inr hs, p') \<Longrightarrow>
   map number hs = [from..to - 1] \<and> (\<forall>h\<in>set hs. getHeaderData w (number h) = Inr h)"
  using getMultipleHeaderDataLoop_headers[of w "from" to "[]" p hs p']
  by (auto simp: getMultipleHeaderData_def)

text \<open>One turn of the loop of fetchHeaders, for a state with a latest block and a cursor.\<close>

lemma fetchHeaders_turn:
  assumes "cacheEntry p = Some s" and "latestBlock s = Some latest" and "lastBlock s = Some l"
    and "getMultipleHeaderData w (l + 1) (min (number latest) (l + funnelBlockGroupSize config)) p
           = (Inr availHeaders, p1)"
    and "headers1 = headers @ availHeaders"
    and "p2 = (if length headers1 > 0
               then modifyState (\<lambda>s. s\<lparr>lastBlock := Some (number (last headers1))\<rparr>) p1
               else p1)"
  shows "fetchHeaders (Suc k) w config maxSlot headers p =
     (if length headers1 > 0 \<and> of_int (slot (last headers1)) \<ge> maxSlot
      then Some (Inr headers1, p2)
      else if min (number latest) (l + funnelBlockGroupSize config) \<noteq> number latest
      then fetchHeaders k w config maxSlot headers1 p2
      else
        (case waitForBlock k w config (number latest) p2 of
           None \<Rightarrow> None
         | Some (Inl e, p3) \<Rightarrow> Some (Inl e, p3)
         | Some (Inr u, p3) \<Rightarrow> fetchHeaders k w config maxSlot headers1 p3))"
  unfolding assms(6) assms(5) using assms(1-4)
  by (simp add: latestBlockOf_def getState_def Let_def)

lemma fetchHeaders_frame:
  "cacheEntry p = Some s \<Longrightarrow> fetchHeaders k w config maxSlot hs p = Some (r, p') \<Longrightarrow>
   \<exists>lb l. cacheEntry p' = Some (s\<lparr>latestBlock := lb, lastBlock := l\<rparr>)"
proof (induction k arbitrary: p s hs)
  case 0
  then show ?case by simp
next
  case (Suc k)
  have same: "cacheEntry p' = Some s \<Longrightarrow> ?case"
  proof -
    assume "cacheEntry p' = Some s"
    then have "cacheEntry p' = Some (s\<lparr>latestBlock := latestBlock s, lastBlock := lastBlock s\<rparr>)"
      by simp
    then show ?case by blast
  qed
  show ?case
  proof (cases "latestBlock s")
    case None
    with Suc.prems have "p' = p" by (simp add: latestBlockOf_def)
    with Suc.prems(1) same show ?thesis by simp
  next
    case (Some latest)
    show ?thesis
    proof (cases "lastBlock s")
      case None
      with Suc.prems Some show ?thesis by (simp add: latestBlockOf_def getState_def)
    next
      case l: (Some l)
      obtain r1 p1 where g: "getMultipleHeaderData w (l + 1)
          (min (number latest) (l + funnelBlockGroupSize config)) p = (r1, p1)"
        by (cases "getMultipleHeaderData w (l + 1)
          (min (number latest) (l + funnelBlockGroupSize config)) p")
      from getMultipleHeaderData_frame[OF g] Suc.prems(1) have c1: "cacheEntry p1 = Some s" by simp
      show ?thesis
      proof (cases r1)
        case (Inl e)
        with Suc.prems Some l g have "p' = p1"
          by (simp add: latestBlockOf_def getState_def Let_def)
        with c1 same show ?thesis by simp
      next
        case (Inr availHeaders)
        define headers1 where "headers1 = hs @ availHeaders"
        define p2 where "p2 = (if length headers1 > 0
                then modifyState (\<lambda>s. s\<lparr>lastBlock := Some (number (last headers1))\<rparr>) p1
                else p1)"
        define s2 where "s2 = (if length headers1 > 0
                then s\<lparr>lastBlock := Some (number (last headers1))\<rparr> else s)"
        have c2: "cacheEntry p2 = Some s2"
          using c1 by (simp add: p2_def s2_def modifyState_def)
        have s2: "\<exists>x. s2 = s\<lparr>lastBlock := x\<rparr>"
        proof (cases "length headers1 > 0")
          case True
          then show ?thesis by (auto simp: s2_def)
        next
          case False
          then have "s2 = s\<lparr>lastBlock := lastBlock s\<rparr>" by (simp add: s2_def)
          then show ?thesis by blast
        qed
        then obtain x where x: "s2 = s\<lparr>lastBlock := x\<rparr>" by blast
        from Suc.prems(2)
        have step: "(if length headers1 > 0 \<and> of_int (slot (last headers1)) \<ge> maxSlot
             then Some (Inr headers1, p2)
             else if min (number latest) (l + funnelBlockGroupSize config) \<noteq> number latest
             then fetchHeaders k w config maxSlot headers1 p2
             else
               (case waitForBlock k w config (number latest) p2 of
                  None \<Rightarrow> None
                | Some (Inl e, p3) \<Rightarrow> Some (Inl e, p3)
                | Some (Inr u, p3) \<Rightarrow> fetchHeaders k w config maxSlot headers1 p3)) = Some (r, p')"
          by (simp only: fetchHeaders_turn[OF Suc.prems(1) Some l g[unfolded Inr] headers1_def p2_def])
        show ?thesis
        proof (cases "length headers1 > 0 \<and> of_int (slot (last headers1)) \<ge> maxSlot")
          case True
          with step have "p' = p2" by simp
          with c2 x have "cacheEntry p' = Some (s\<lparr>latestBlock := latestBlock s, lastBlock := x\<rparr>)"
            by simp
          then show ?thesis by blast
        next
          case nb: False
          show ?thesis
          proof (cases "min (number latest) (l + funnelBlockGroupSize config) \<noteq> number latest")
            case True
            with step nb have "fetchHeaders k w config maxSlot headers1 p2 = Some (r, p')"
              by (auto split: if_splits)
            from Suc.IH[OF c2 this] x show ?thesis by auto
          next
            case False
            with step nb have wt: "(case waitForBlock k w config (number latest) p2 of
                  None \<Rightarrow> None
                | Some (Inl e, p3) \<Rightarrow> Some (Inl e, p3)
                | Some (Inr u, p3) \<Rightarrow> fetchHeaders k w config maxSlot headers1 p3) = Some (r, p')"
              by (auto split: if_splits)
            then obtain r3 p3 where w3: "waitForBlock k w config (number latest) p2 = Some (r3, p3)"
              by (cases "waitForBlock k w config (number latest) p2") auto
            from waitForBlock_frame[OF c2 w3] obtain lb where
              c3: "cacheEntry p3 = Some (s2\<lparr>latestBlock := lb\<rparr>)" by blast
            show ?thesis
            proof (cases r3)
              case (Inl e)
              with wt w3 have "p' = p3" by simp
              with c3 x have "cacheEntry p' = Some (s\<lparr>latestBlock := lb, lastBlock := x\<rparr>)" by simp
              then show ?thesis by blast
            next
              case (Inr u)
              with wt w3 have "fetchHeaders k w config maxSlot headers1 p3 = Some (r, p')" by simp
              from Suc.IH[OF c3 this] x show ?thesis by auto
            qed
          qed
        qed
      qed
    qed
  qed
qed

lemma composeChainData_timestamps:
  "map timestamp (composeChainData chainData cde) = map timestamp chainData"
  by (simp add: composeChainData_def composeBlock_def split: option.splits)

lemma correlate_empty_index:
  assumes "cacheEntry p = Some s"
    and "timestampToBlockNumber (trimIndex (appendHeaders headers s)) = []"
  shows "correlate w config chainName maxSlot chainData headers p =
           (Inr chainData, p\<lparr>cacheEntry := Some (trimIndex (appendHeaders headers s))\<rparr>)"
  using assms by (simp add: correlate_def getState_def Let_def)

lemma correlate_index:
  assumes "cacheEntry p = Some s"
    and "timestampToBlockNumber (trimIndex (appendHeaders headers s)) = firstEntry # others"
    and "p1 = p\<lparr>cacheEntry := Some ((trimIndex (appendHeaders headers s))\<lparr>lastMaxSlot := maxSlot\<rparr>)\<rparr>"
    and "toBlock = (case getUpperBoundBlock (firstEntry # others) (maxSlot * 20) of
                      None \<Rightarrow> snd firstEntry
                    | Some b \<Rightarrow> if b = 0 then snd firstEntry else b)"
    and "m = buildMapping config (firstEntry # others) chainData Map.empty"
  shows "correlate w config chainName maxSlot chainData headers p =
           (if of_int (fst firstEntry) > maxSlot * 20 then (Inr chainData, p1)
            else if toBlock = 0 \<or> snd firstEntry < 0 \<or> toBlock < snd firstEntry
            then (Inr chainData, p1)
            else (case getSubmittedData w (snd firstEntry) toBlock chainName p1 of
                    (Inl e, p2) \<Rightarrow> (Inl e, p2)
                  | (Inr availData, p2) \<Rightarrow>
                      (Inr (composeChainData chainData (map (remapBlockNumber m) availData)), p2)))"
  unfolding assms(3) assms(4) assms(5) using assms(1,2)
  by (simp add: correlate_def getState_def Let_def del: buildMapping.simps)

lemma correlate_frame:
  assumes "cacheEntry p = Some s"
    and "correlate w config chainName maxSlot chainData headers p = (r, p')"
  shows "\<exists>lb ms. cacheEntry p' =
           Some (s\<lparr>latestBlock := lb, lastMaxSlot := ms,
                   timestampToBlockNumber :=
                     dropWhile (\<lambda>entry. of_int (fst entry) \<le> lastMaxSlot s * 20)
                       (timestampToBlockNumber s @
                          map (\<lambda>availHeader. (slot availHeader * 20, number availHeader)) headers)\<rparr>) \<and>
         (\<forall>batch. r = Inr batch \<longrightarrow> map timestamp batch = map timestamp chainData)"
proof -
  define s1 where "s1 = trimIndex (appendHeaders headers s)"
  define lb where "lb = (if headers = [] then latestBlock s else Some (last headers))"
  have s1: "s1 = s\<lparr>latestBlock := lb, lastMaxSlot := lastMaxSlot s,
                   timestampToBlockNumber :=
                     dropWhile (\<lambda>entry. of_int (fst entry) \<le> lastMaxSlot s * 20)
                       (timestampToBlockNumber s @
                          map (\<lambda>availHeader. (slot availHeader * 20, number availHeader)) headers)\<rparr>"
    by (simp add: s1_def trimIndex_def appendHeaders_def lb_def)
  show ?thesis
  proof (cases "timestampToBlockNumber s1")
    case Nil
    from assms(2) correlate_empty_index[OF assms(1) Nil[unfolded s1_def]]
    have "p' = p\<lparr>cacheEntry := Some s1\<rparr>" "r = Inr chainData"
      by (simp_all add: s1_def)
    with s1 show ?thesis
      by (intro exI[of _ lb] exI[of _ "lastMaxSlot s"]) simp
  next
    case (Cons firstEntry others)
    define p1 where "p1 = p\<lparr>cacheEntry := Some ((trimIndex (appendHeaders headers s))\<lparr>lastMaxSlot := maxSlot\<rparr>)\<rparr>"
    define toBlock where "toBlock =
          (case getUpperBoundBlock (firstEntry # others) (maxSlot * 20) of
             None \<Rightarrow> snd firstEntry
           | Some b \<Rightarrow> if b = 0 then snd firstEntry else b)"
    define m where "m = buildMapping config (firstEntry # others) chainData Map.empty"
    have c1: "cacheEntry p1 = Some (s1\<lparr>lastMaxSlot := maxSlot\<rparr>)" by (simp add: p1_def s1_def)
    note eq = correlate_index[OF assms(1) Cons[unfolded s1_def] p1_def toBlock_def m_def,
        of w chainName]
    have fin: "cacheEntry p' = Some (s1\<lparr>lastMaxSlot := maxSlot\<rparr>) \<and>
               (\<forall>batch. r = Inr batch \<longrightarrow> map timestamp batch = map timestamp chainData)"
    proof (cases "of_int (fst firstEntry) > maxSlot * 20 \<or>
                  toBlock = 0 \<or> snd firstEntry < 0 \<or> toBlock < snd firstEntry")
      case True
      with assms(2) have "p' = p1" "r = Inr chainData"
        by (auto simp: eq split: if_splits)
      with c1 show ?thesis by simp
    next
      case False
      obtain r2 p2 where g: "getSubmittedData w (snd firstEntry) toBlock chainName p1 = (r2, p2)"
        by (cases "getSubmittedData w (snd firstEntry) toBlock chainName p1")
      from getSubmittedData_frame[OF g] c1 have c2: "cacheEntry p2 = Some (s1\<lparr>lastMaxSlot := maxSlot\<rparr>)"
        by simp
      from assms(2) False g
      have "(case r2 of Inl e \<Rightarrow> (Inl e, p2)
               | Inr availData \<Rightarrow>
                   (Inr (composeChainData chainData (map (remapBlockNumber m) availData)), p2))
            = (r, p')"
        by (auto simp: eq split: sum.splits if_splits)
      with c2 show ?thesis
        by (cases r2) (auto simp: composeChainData_timestamps)
    qed
    with s1 show ?thesis
      by (intro exI[of _ lb] exI[of _ maxSlot]) simp
  qed
qed

lemma drop_filter_sorted:
  assumes "sorted (map f xs)" and "\<And>a b. f a \<le> f b \<Longrightarrow> P b \<Longrightarrow> P a"
  shows "drop (length (filter P xs)) xs = filter (\<lambda>x. \<not> P x) xs"
  using assms(1)
proof (induction xs)
  case Nil
  then show ?case by simp
next
  case (Cons x xs)
  show ?case
  proof (cases "P x")
    case True
    with Cons show ?thesis by simp
  next
    case False
    have "\<not> P y" if "y \<in> set xs" for y
    proof
      assume "P y"
      from Cons.prems that have "f x \<le> f y" by auto
      from assms(2)[OF this \<open>P y\<close>] False show False by simp
    qed
    then have "filter P xs = []" "filter (\<lambda>x. \<not> P x) xs = xs"
      by (auto simp: filter_empty_conv filter_id_conv)
    with False show ?thesis by simp
  qed
qed

lemma applyDelay_mono: "a \<le> b \<Longrightarrow> applyDelay config a \<le> applyDelay config b"
  by (simp add: applyDelay_def)

text \<open>
  A batch that comes back as it was filtered leaves the buffer as it is, and on a buffer
  in the order of time the blocks behind the batch are the blocks that did not pass.
\<close>

lemma writeBack_none: "writeBack P xs [] = xs"
  by (cases xs) simp_all

lemma writeBack_Cons:
  "writeBack P (d # ds) merged =
     (if P d then (case merged of [] \<Rightarrow> d # ds | x # xs \<Rightarrow> x # writeBack P ds xs)
      else d # writeBack P ds merged)"
  by (cases merged) (simp_all add: writeBack_none)

lemma writeBack_filter: "writeBack P xs (filter P xs) = xs"
  by (induction xs) (simp_all add: writeBack_Cons)

lemma writeBack_sorted:
  assumes "sorted (map f xs)" and "\<And>a b. f a \<le> f b \<Longrightarrow> P b \<Longrightarrow> P a"
    and "length merged = length (filter P xs)"
  shows "drop (length merged) (writeBack P xs merged) = filter (\<lambda>x. \<not> P x) xs"
  using assms(1,3)
proof (induction xs arbitrary: merged)
  case Nil
  then show ?case by simp
next
  case (Cons x xs)
  show ?case
  proof (cases "P x")
    case True
    with Cons.prems(2) obtain y ys where m: "merged = y # ys" "length ys = length (filter P xs)"
      by (cases merged) auto
    from Cons.prems(1) have "sorted (map f xs)" by simp
    from Cons.IH[OF this m(2)] True m(1) show ?thesis by simp
  next
    case False
    have "\<not> P y" if "y \<in> set xs" for y
    proof
      assume "P y"
      from Cons.prems(1) that have "f x \<le> f y" by auto
      from assms(2)[OF this \<open>P y\<close>] False show False by simp
    qed
    then have "filter P xs = []" "filter (\<lambda>x. \<not> P x) xs = xs"
      by (auto simp: filter_empty_conv filter_id_conv)
    with False Cons.prems(2) show ?thesis by (simp add: writeBack_none)
  qed
qed

lemma shareMerged_buffer:
  assumes "cacheEntry p = Some s" and "shareMerged P buffer (r, p) = (r', p')"
  shows "r' = r \<and>
         (case r of
            Inl e \<Rightarrow> p' = p
          | Inr batch \<Rightarrow>
              cacheEntry p' =
                Some (s\<lparr>bufferedChainData := drop (length batch) (writeBack P buffer batch)\<rparr>))"
  using assms by (cases r) (auto simp: shareMerged_def modifyState_def)

lemma shareMerged_frame:
  assumes "cacheEntry p = Some s" and "shareMerged P buffer (r, p) = (r', p')"
  shows "r' = r \<and> (\<exists>b. cacheEntry p' = Some (s\<lparr>bufferedChainData := b\<rparr>))"
proof (cases r)
  case (Inl e)
  with shareMerged_buffer[OF assms] assms(1)
  have "r' = r" "cacheEntry p' = Some (s\<lparr>bufferedChainData := bufferedChainData s\<rparr>)"
    by simp_all
  then show ?thesis by blast
next
  case (Inr batch)
  with shareMerged_buffer[OF assms] show ?thesis by auto
qed

lemma readData_after_refresh:
  assumes "fillBuffer base blockHeight p = (Inr u, p1)"
    and "updateLatestBlock w config p1 = (Inr n, p2)"
    and "latestBlockOf p2 = Inr latest"
    and "cacheEntry p2 = Some s2"
    and "chainData = filter (\<lambda>d. applyDelay config (timestamp d) \<le> slot latest * 20)
                       (bufferedChainData s2)"
    and "p3 = p2\<lparr>cacheEntry := Some (s2\<lparr>bufferedChainData :=
                   drop (length chainData) (bufferedChainData s2)\<rparr>)\<rparr>"
  shows "readData fuel w config chainName base blockHeight p =
     (case chainData of
        [] \<Rightarrow> Some (Inr [], p3)
      | firstBlock # others \<Rightarrow>
          (case determineLastBlock w config firstBlock p3 of
             (Inl e, p4) \<Rightarrow> Some (Inl e, p4)
           | (Inr l, p4) \<Rightarrow>
               (case fetchHeaders fuel w config
                       (of_int (applyDelay config (timestamp (last chainData))) / 20) [] p4 of
                  None \<Rightarrow> None
                | Some (Inl e, p5) \<Rightarrow> Some (Inl e, p5)
                | Some (Inr headers, p5) \<Rightarrow>
                    Some (shareMerged (\<lambda>d. applyDelay config (timestamp d) \<le> slot latest * 20)
                            (bufferedChainData s2)
                            (correlate w config chainName
                               (of_int (applyDelay config (timestamp (last chainData))) / 20)
                               chainData headers p5)))))"
  unfolding assms(6) assms(5) using assms(1-4)
  by (simp add: readData_def getState_def modifyState_def Let_def
      cong del: list.case_cong_weak prod.case_cong_weak sum.case_cong_weak)

lemma readData_after_refresh_batch:
  assumes "fillBuffer base blockHeight p = (Inr u, p1)"
    and "updateLatestBlock w config p1 = (Inr n, p2)"
    and "latestBlockOf p2 = Inr latest"
    and "cacheEntry p2 = Some s2"
    and "chainData = filter (\<lambda>d. applyDelay config (timestamp d) \<le> slot latest * 20)
                       (bufferedChainData s2)"
    and "p3 = p2\<lparr>cacheEntry := Some (s2\<lparr>bufferedChainData :=
                   drop (length chainData) (bufferedChainData s2)\<rparr>)\<rparr>"
    and "chainData = firstBlock # others"
    and "maxSlot = of_int (applyDelay config (timestamp (last chainData))) / 20"
  shows "readData fuel w config chainName base blockHeight p =
          (case determineLastBlock w config firstBlock p3 of
             (Inl e, p4) \<Rightarrow> Some (Inl e, p4)
           | (Inr l, p4) \<Rightarrow>
               (case fetchHeaders fuel w config maxSlot [] p4 of
                  None \<Rightarrow> None
                | Some (Inl e, p5) \<Rightarrow> Some (Inl e, p5)
                | Some (Inr headers, p5) \<Rightarrow>
                    Some (shareMerged (\<lambda>d. applyDelay config (timestamp d) \<le> slot latest * 20)
                            (bufferedChainData s2)
                            (correlate w config chainName maxSlot chainData headers p5))))"
  unfolding readData_after_refresh[OF assms(1-6)] assms(8)
  by (simp only: assms(7) list.case)

section \<open>The filter of readData\<close>

lemma readData_tail:
  assumes "fillBuffer base blockHeight p = (Inr u, p1)"
    and "updateLatestBlock w config p1 = (Inr n, p2)"
    and "latestBlockOf p2 = Inr latest"
    and "cacheEntry p2 = Some s2"
    and "chainData = filter (\<lambda>d. applyDelay config (timestamp d) \<le> slot latest * 20)
                       (bufferedChainData s2)"
    and "readData fuel w config chainName base blockHeight p = Some (r, p')"
  shows "\<exists>s'. cacheEntry p' = Some s' \<and>
           (bufferedChainData s' = drop (length chainData) (bufferedChainData s2) \<or>
            (\<exists>batch. r = Inr batch \<and>
               bufferedChainData s' =
                 drop (length batch)
                   (writeBack (\<lambda>d. applyDelay config (timestamp d) \<le> slot latest * 20)
                      (bufferedChainData s2) batch))) \<and>
           (\<forall>batch. r = Inr batch \<longrightarrow> map timestamp batch = map timestamp chainData)"
proof -
  define s3 where "s3 = s2\<lparr>bufferedChainData := drop (length chainData) (bufferedChainData s2)\<rparr>"
  define p3 where "p3 = p2\<lparr>cacheEntry := Some (s2\<lparr>bufferedChainData :=
                   drop (length chainData) (bufferedChainData s2)\<rparr>)\<rparr>"
  have c3: "cacheEntry p3 = Some s3" by (simp add: p3_def s3_def)
  have b3: "bufferedChainData s3 = drop (length chainData) (bufferedChainData s2)"
    by (simp add: s3_def)
  note eq = readData_after_refresh[OF assms(1-5) p3_def, of fuel chainName]
  note eqb = readData_after_refresh_batch[OF assms(1-5) p3_def, of _ _ _ fuel chainName]
  show ?thesis
  proof (cases chainData)
    case Nil
    with assms(6) eq have "r = Inr []" "p' = p3" by simp_all
    with c3 b3 Nil show ?thesis by simp
  next
    case (Cons firstBlock others)
    define maxSlot :: rat where "maxSlot = of_int (applyDelay config (timestamp (last chainData))) / 20"
    note eqc = eqb[OF Cons maxSlot_def]
    obtain r4 p4 where d: "determineLastBlock w config firstBlock p3 = (r4, p4)"
      by (cases "determineLastBlock w config firstBlock p3")
    from determineLastBlock_frame[OF c3 d]
    obtain s4 where c4: "cacheEntry p4 = Some s4" and b4: "bufferedChainData s4 = bufferedChainData s3"
      by auto
    show ?thesis
    proof (cases r4)
      case (Inl e)
      with assms(6) eqc d have "r = Inl e" "p' = p4" by simp_all
      with c4 b4 b3 show ?thesis by simp
    next
      case (Inr l)
      from assms(6) eqc d Inr
      have f: "(case fetchHeaders fuel w config maxSlot [] p4 of
                  None \<Rightarrow> None
                | Some (Inl e, p5) \<Rightarrow> Some (Inl e, p5)
                | Some (Inr headers, p5) \<Rightarrow>
                    Some (shareMerged (\<lambda>d. applyDelay config (timestamp d) \<le> slot latest * 20)
                            (bufferedChainData s2)
                            (correlate w config chainName maxSlot chainData headers p5)))
                = Some (r, p')"
        by simp
      then obtain r5 p5 where f5: "fetchHeaders fuel w config maxSlot [] p4 = Some (r5, p5)"
        by (cases "fetchHeaders fuel w config maxSlot [] p4") auto
      from fetchHeaders_frame[OF c4 f5]
      obtain s5 where c5: "cacheEntry p5 = Some s5" and b5: "bufferedChainData s5 = bufferedChainData s4"
        by auto
      show ?thesis
      proof (cases r5)
        case e: (Inl e)
        with f f5 have "r = Inl e" "p' = p5" by simp_all
        with c5 b5 b4 b3 show ?thesis by simp
      next
        case h: (Inr headers)
        obtain r6 p6 where co: "correlate w config chainName maxSlot chainData headers p5 = (r6, p6)"
          by (cases "correlate w config chainName maxSlot chainData headers p5")
        with f f5 h
        have sh: "shareMerged (\<lambda>d. applyDelay config (timestamp d) \<le> slot latest * 20)
                    (bufferedChainData s2) (r6, p6) = (r, p')"
          by simp
        from correlate_frame[OF c5 co] obtain s6 where
          c6: "cacheEntry p6 = Some s6" and b6: "bufferedChainData s6 = bufferedChainData s5"
          and t6: "\<forall>batch. r6 = Inr batch \<longrightarrow> map timestamp batch = map timestamp chainData"
          by auto
        note sb = shareMerged_buffer[OF c6 sh]
        show ?thesis
        proof (cases r6)
          case (Inl e)
          with sb have "r = Inl e" "p' = p6" by simp_all
          with c6 b6 b5 b4 b3 show ?thesis by simp
        next
          case (Inr batch)
          with sb have "r = Inr batch"
            "cacheEntry p' = Some (s6\<lparr>bufferedChainData :=
               drop (length batch)
                 (writeBack (\<lambda>d. applyDelay config (timestamp d) \<le> slot latest * 20)
                    (bufferedChainData s2) batch)\<rparr>)"
            by simp_all
          with t6 Inr show ?thesis by simp
        qed
      qed
    qed
  qed
qed

text \<open>
  Claim C2. For every call of \<^verbatim>\<open>readData\<close> and every buffered primary block, a block whose
  delayed timestamp is beyond the current logical time of the secondary chain is not in
  the returned batch of that call and remains in the buffer for the next call; if no
  buffered block passes the filter, the call returns an empty batch.

  The buffer holds blocks of the primary chain in the order of the chain, as the wrapped
  funnel returned them, and the timestamps of a chain do not decrease from a block to
  the next: \<open>sorted (map timestamp (bufferedChainData s2))\<close>. The call is one whose refill
  of the buffer and refresh of the head succeed: \<open>s2\<close> is the state then, \<open>latest\<close> the
  latest block of the secondary chain, so that \<open>slot latest * 20\<close> is its current logical
  time. Whenever the call returns, the buffer afterwards is the blocks of the buffer
  that are beyond that time, in their order, and every block of the batch is at or
  before that time. If no buffered block passes, the call returns the empty batch,
  whatever the fuel.
\<close>

theorem readData_holds_back_blocks:
  assumes "fillBuffer base blockHeight p = (Inr u, p1)"
    and "updateLatestBlock w config p1 = (Inr n, p2)"
    and "latestBlockOf p2 = Inr latest"
    and "cacheEntry p2 = Some s2"
    and "sorted (map timestamp (bufferedChainData s2))"
  shows "((\<forall>d\<in>set (bufferedChainData s2). applyDelay config (timestamp d) > slot latest * 20) \<longrightarrow>
            readData fuel w config chainName base blockHeight p = Some (Inr [], p2)) \<and>
         (\<forall>r p'. readData fuel w config chainName base blockHeight p = Some (r, p') \<longrightarrow>
            (\<exists>s'. cacheEntry p' = Some s' \<and>
               bufferedChainData s' =
                 filter (\<lambda>d. applyDelay config (timestamp d) > slot latest * 20) (bufferedChainData s2) \<and>
               (\<forall>batch. r = Inr batch \<longrightarrow>
                  (\<forall>b\<in>set batch. applyDelay config (timestamp b) \<le> slot latest * 20) \<and>
                  (\<forall>d\<in>set (bufferedChainData s2).
                      applyDelay config (timestamp d) > slot latest * 20 \<longrightarrow>
                        d \<notin> set batch \<and> d \<in> set (bufferedChainData s')))))"
proof (intro conjI impI allI)
  assume none: "\<forall>d\<in>set (bufferedChainData s2). applyDelay config (timestamp d) > slot latest * 20"
  then have e: "filter (\<lambda>d. applyDelay config (timestamp d) \<le> slot latest * 20)
                  (bufferedChainData s2) = []"
    by (auto simp: filter_empty_conv)
  have "p2\<lparr>cacheEntry := Some (s2\<lparr>bufferedChainData := drop (length ([]::chainData list))
           (bufferedChainData s2)\<rparr>)\<rparr> = p2"
    using assms(4) by simp
  with readData_after_refresh[OF assms(1-4) e[symmetric] refl, of fuel chainName]
  show "readData fuel w config chainName base blockHeight p = Some (Inr [], p2)"
    by simp
next
  fix r p'
  assume rd: "readData fuel w config chainName base blockHeight p = Some (r, p')"
  define chainData where "chainData = filter (\<lambda>d. applyDelay config (timestamp d) \<le> slot latest * 20)
                       (bufferedChainData s2)"
  from readData_tail[OF assms(1-4) chainData_def rd]
  obtain s' where s': "cacheEntry p' = Some s'"
    "bufferedChainData s' = drop (length chainData) (bufferedChainData s2) \<or>
       (\<exists>batch. r = Inr batch \<and>
          bufferedChainData s' =
            drop (length batch)
              (writeBack (\<lambda>d. applyDelay config (timestamp d) \<le> slot latest * 20)
                 (bufferedChainData s2) batch))"
    "\<forall>batch. r = Inr batch \<longrightarrow> map timestamp batch = map timestamp chainData"
    by blast
  have mono: "applyDelay config (timestamp a) \<le> slot latest * 20"
    if "timestamp a \<le> timestamp b" "applyDelay config (timestamp b) \<le> slot latest * 20" for a b
    using applyDelay_mono[OF that(1), of config] that(2) by simp
  have held: "drop (length chainData) (bufferedChainData s2) =
      filter (\<lambda>d. \<not> applyDelay config (timestamp d) \<le> slot latest * 20) (bufferedChainData s2)"
    unfolding chainData_def
    by (rule drop_filter_sorted[where f = timestamp, OF assms(5) mono])
  have merged: "drop (length batch)
              (writeBack (\<lambda>d. applyDelay config (timestamp d) \<le> slot latest * 20)
                 (bufferedChainData s2) batch) =
      filter (\<lambda>d. \<not> applyDelay config (timestamp d) \<le> slot latest * 20) (bufferedChainData s2)"
    if "r = Inr batch" for batch
  proof -
    from s'(3) that have "map timestamp batch = map timestamp chainData" by blast
    then have "length batch = length chainData" by (rule map_eq_imp_length_eq)
    then have len: "length batch =
        length (filter (\<lambda>d. applyDelay config (timestamp d) \<le> slot latest * 20)
                  (bufferedChainData s2))"
      by (simp add: chainData_def)
    show ?thesis
      by (rule writeBack_sorted[where f = timestamp, OF assms(5) mono len])
  qed
  have "bufferedChainData s' =
      filter (\<lambda>d. \<not> applyDelay config (timestamp d) \<le> slot latest * 20) (bufferedChainData s2)"
    using s'(2) held merged by auto
  then have buf: "bufferedChainData s' =
      filter (\<lambda>d. applyDelay config (timestamp d) > slot latest * 20) (bufferedChainData s2)"
    by (simp add: not_le)
  have batch: "(\<forall>b\<in>set batch. applyDelay config (timestamp b) \<le> slot latest * 20) \<and>
               (\<forall>d\<in>set (bufferedChainData s2).
                   applyDelay config (timestamp d) > slot latest * 20 \<longrightarrow>
                     d \<notin> set batch \<and> d \<in> set (bufferedChainData s'))"
    if "r = Inr batch" for batch
  proof -
    from s'(3) that have ts: "map timestamp batch = map timestamp chainData" by blast
    have pass: "applyDelay config t \<le> slot latest * 20" if "t \<in> set (map timestamp batch)" for t
      using that unfolding ts chainData_def by auto
    have all: "\<forall>b\<in>set batch. applyDelay config (timestamp b) \<le> slot latest * 20"
      using pass by auto
    then show ?thesis using buf by auto
  qed
  show "\<exists>s'. cacheEntry p' = Some s' \<and>
               bufferedChainData s' =
                 filter (\<lambda>d. applyDelay config (timestamp d) > slot latest * 20) (bufferedChainData s2) \<and>
               (\<forall>batch. r = Inr batch \<longrightarrow>
                  (\<forall>b\<in>set batch. applyDelay config (timestamp b) \<le> slot latest * 20) \<and>
                  (\<forall>d\<in>set (bufferedChainData s2).
                      applyDelay config (timestamp d) > slot latest * 20 \<longrightarrow>
                        d \<notin> set batch \<and> d \<in> set (bufferedChainData s')))"
    using s'(1) buf batch by blast
qed

lemmas example_eval =
  readData_def shareMerged_def fillBuffer_def getState_def modifyState_def recoveredProcess_value
  updateLatestBlock_def exampleWorld_head exampleWorld_header exampleWorld_web3
  exampleConfig_fields exampleConfig_delay call_def latestBlockOf_def Let_def exampleBlock_def
  determineLastBlock_def resolveLastBlock_def findBlockByTimestamp_def findBlockLoop.simps
  getMultipleHeaderData_def getMultipleHeaderDataLoop.simps correlate_def appendHeaders_def
  trimIndex_def getUpperBoundBlock_def getSubmittedData_def getSubmittedDataLoop.simps
  composeChainData_def composeBlock_def remapBlockNumber_def wrapTransaction_def

lemma exampleWorld_fields:
  "latestProcessed exampleWorld = None"
  "lightClient exampleWorld n =
     Some \<lparr>status = 200, body = Some \<lparr>block_number = n, data_transactions = [''tx'']\<rparr>\<rparr>"
  by (simp_all add: exampleWorld_def)

lemma readData_sorted_example:
  "readData (Suc 0) exampleWorld exampleConfig ''avail''
        (\<lambda>h. Inr [exampleBlock 4 240, exampleBlock 5 250, exampleBlock 6 400]) 4 recoveredProcess =
   Some (Inr [(exampleBlock 4 240)\<lparr>chainData.extensionDatums :=
                 Some [wrapTransaction ''avail'' 2 ''tx'']\<rparr>,
              exampleBlock 5 250],
     \<lparr>cacheEntry =
        Some \<lparr>latestBlock = Some \<lparr>number = 7, hash = ''h'', slot = 17\<rparr>,
          startingBlockHeight = 2, lastMaxSlot = 25 / 2, lastBlock = Some 7,
          bufferedChainData = [exampleBlock 6 400],
          timestampToBlockNumber = [(240, 2), (260, 3), (280, 4), (300, 5), (320, 6), (340, 7)]\<rparr>,
      clock = 4,
      trace =
        [Web3GetBlock 3, CreateApi, ChainGetFinalizedHead, ChainGetHeader 4,
         ChainGetHeader 2, ChainGetHeader 1, ChainGetFinalizedHead,
         ChainGetHeader 7, ChainGetFinalizedHead, ChainGetHeader 8,
         DbLatestProcessed, Web3GetBlock 3, ChainGetFinalizedHead,
         ChainGetHeader 5, ChainGetHeader 3, ChainGetHeader 2,
         ChainGetHeader 1, ChainGetHeader 2, ChainGetHeader 3,
         ChainGetHeader 4, ChainGetHeader 5, ChainGetHeader 6,
         ChainGetHeader 7, LightClientGet 2]\<rparr>)"
  by (simp add: example_eval exampleWorld_fields)

theorem readData_holds_back_blocks_witness:
  "map_option (\<lambda>x. map_option bufferedChainData (cacheEntry (snd x)))
     (readData (Suc 0) exampleWorld exampleConfig ''avail''
        (\<lambda>h. Inr [exampleBlock 4 240, exampleBlock 5 250, exampleBlock 6 400]) 4 recoveredProcess)
     = Some (Some [exampleBlock 6 400]) \<and>
   map_option (\<lambda>x. map_sum id (map timestamp) (fst x))
     (readData (Suc 0) exampleWorld exampleConfig ''avail''
        (\<lambda>h. Inr [exampleBlock 4 240, exampleBlock 5 250, exampleBlock 6 400]) 4 recoveredProcess)
     = Some (Inr [240, 250])"
proof -
  let ?base = "\<lambda>h::int. (Inr [exampleBlock 4 240, exampleBlock 5 250, exampleBlock 6 400]
                           :: error + chainData list)"
  let ?s2 = "\<lparr>latestBlock = Some \<lparr>number = 8, hash = ''h'', slot = 18\<rparr>,
          startingBlockHeight = 2, lastMaxSlot = 0, lastBlock = None,
          bufferedChainData = [exampleBlock 4 240, exampleBlock 5 250, exampleBlock 6 400],
          timestampToBlockNumber = []\<rparr>"
  let ?p1 = "recoveredProcess\<lparr>cacheEntry := Some (?s2\<lparr>latestBlock :=
               Some \<lparr>number = 7, hash = ''h'', slot = 17\<rparr>\<rparr>)\<rparr>"
  let ?p2 = "\<lparr>cacheEntry = Some ?s2, clock = 3,
             trace = trace recoveredProcess @ [ChainGetFinalizedHead, ChainGetHeader 8]\<rparr>"
  have h1: "fillBuffer ?base 4 recoveredProcess = (Inr (), ?p1)"
    by (simp add: fillBuffer_def getState_def modifyState_def recoveredProcess_value)
  have h2: "updateLatestBlock exampleWorld exampleConfig ?p1 = (Inr 8, ?p2)"
    by (simp add: updateLatestBlock_def getState_def modifyState_def recoveredProcess_value
        exampleWorld_head exampleWorld_header exampleConfig_fields call_def Let_def)
  have h3: "latestBlockOf ?p2 = Inr \<lparr>number = 8, hash = ''h'', slot = 18\<rparr>"
    by (simp add: latestBlockOf_def)
  have h4: "cacheEntry ?p2 = Some ?s2" by simp
  have h5: "sorted (map timestamp (bufferedChainData ?s2))" by (simp add: exampleBlock_def)
  from readData_holds_back_blocks[OF h1 h2 h3 h4 h5, where fuel = "Suc 0" and chainName = "''avail''"]
    readData_sorted_example
  obtain s' where s': "cacheEntry
       \<lparr>cacheEntry =
        Some \<lparr>latestBlock = Some \<lparr>number = 7, hash = ''h'', slot = 17\<rparr>,
          startingBlockHeight = 2, lastMaxSlot = 25 / 2, lastBlock = Some 7,
          bufferedChainData = [exampleBlock 6 400],
          timestampToBlockNumber = [(240, 2), (260, 3), (280, 4), (300, 5), (320, 6), (340, 7)]\<rparr>,
      clock = 4,
      trace =
        [Web3GetBlock 3, CreateApi, ChainGetFinalizedHead, ChainGetHeader 4,
         ChainGetHeader 2, ChainGetHeader 1, ChainGetFinalizedHead,
         ChainGetHeader 7, ChainGetFinalizedHead, ChainGetHeader 8,
         DbLatestProcessed, Web3GetBlock 3, ChainGetFinalizedHead,
         ChainGetHeader 5, ChainGetHeader 3, ChainGetHeader 2,
         ChainGetHeader 1, ChainGetHeader 2, ChainGetHeader 3,
         ChainGetHeader 4, ChainGetHeader 5, ChainGetHeader 6,
         ChainGetHeader 7, LightClientGet 2]\<rparr> = Some s'"
    "bufferedChainData s' =
       filter (\<lambda>d. applyDelay exampleConfig (timestamp d) > slot \<lparr>number = 8, hash = ''h'', slot = 18\<rparr> * 20)
         (bufferedChainData ?s2)"
    by blast
  from s'(2) have "bufferedChainData s' = [exampleBlock 6 400]"
    by (simp add: exampleConfig_delay exampleBlock_def)
  with s'(1) show ?thesis
    by (simp add: readData_sorted_example) (simp add: exampleBlock_def)
qed

text \<open>
  The blocks of the batch are the blocks of the buffer. Were a block that passes the
  filter to stand behind one that does not, line 71 would take the first block off the
  buffer, and the block that passed would be in the batch and still in the buffer, with
  the datum that was merged into it.
\<close>

lemma readData_shared_block_example:
  "map_option fst
     (readData (Suc 0) exampleWorld exampleConfig ''avail''
        (\<lambda>h. Inr [exampleBlock 4 400, exampleBlock 5 260]) 4 recoveredProcess)
     = Some (Inr [(exampleBlock 5 260)\<lparr>chainData.extensionDatums :=
                     Some [wrapTransaction ''avail'' 3 ''tx'']\<rparr>]) \<and>
   map_option (\<lambda>x. map_option bufferedChainData (cacheEntry (snd x)))
     (readData (Suc 0) exampleWorld exampleConfig ''avail''
        (\<lambda>h. Inr [exampleBlock 4 400, exampleBlock 5 260]) 4 recoveredProcess)
     = Some (Some [(exampleBlock 5 260)\<lparr>chainData.extensionDatums :=
                     Some [wrapTransaction ''avail'' 3 ''tx'']\<rparr>])"
  by (simp add: example_eval exampleWorld_fields)

text \<open>
  A run of \<^verbatim>\<open>readData\<close> in which the secondary blocks 2 and 3 are both mapped to the
  primary block 4: the data of both is fetched, both records carry the block number 4
  after the remapping, and the primary block receives the datum of block 2 only.
\<close>

lemma readData_two_blocks_to_one_example:
  "map_option fst
     (readData (Suc 0) exampleWorld exampleConfig ''avail''
        (\<lambda>h. Inr [exampleBlock 4 260, exampleBlock 5 270]) 4 recoveredProcess)
     = Some (Inr [(exampleBlock 4 260)\<lparr>chainData.extensionDatums :=
                     Some [wrapTransaction ''avail'' 2 ''tx'']\<rparr>,
                  exampleBlock 5 270]) \<and>
   map_option (\<lambda>x. filter (\<lambda>c. c = LightClientGet 2 \<or> c = LightClientGet 3) (trace (snd x)))
     (readData (Suc 0) exampleWorld exampleConfig ''avail''
        (\<lambda>h. Inr [exampleBlock 4 260, exampleBlock 5 270]) 4 recoveredProcess)
     = Some [LightClientGet 2, LightClientGet 3] \<and>
   expectedRecords exampleWorld ''avail'' 3 = [exampleRecord 3 ''tx'']"
  by (simp add: example_eval exampleWorld_fields expectedRecords_def exampleRecord_def)

section \<open>The index of secondary blocks\<close>

lemma indexInv_latestBlock [simp]: "indexInv w (s\<lparr>latestBlock := lb\<rparr>) = indexInv w s"
  by (simp add: indexInv_def cursorBound_def)

lemma indexInv_buffer [simp]: "indexInv w (s\<lparr>bufferedChainData := b\<rparr>) = indexInv w s"
  by (simp add: indexInv_def cursorBound_def)

lemma indexInv_lastMaxSlot [simp]: "indexInv w (s\<lparr>lastMaxSlot := x\<rparr>) = indexInv w s"
  by (simp add: indexInv_def cursorBound_def)

lemma fetched_latestBlock [simp]: "fetched w hs (s\<lparr>latestBlock := lb\<rparr>) = fetched w hs s"
  by (simp add: fetched_def)

lemma indexInv_cursor:
  assumes "indexInv w s" and "cursorBound s \<le> max 0 l"
  shows "indexInv w (s\<lparr>lastBlock := Some l\<rparr>)"
proof -
  have "snd e \<le> max 0 l" if "e \<in> set (timestampToBlockNumber s)" for e
  proof -
    from assms(1) that have "snd e \<le> cursorBound s" by (simp add: indexInv_def)
    with assms(2) show ?thesis by simp
  qed
  with assms(1) show ?thesis by (simp add: indexInv_def cursorBound_def)
qed

lemma determineLastBlock_inv:
  assumes "cacheEntry p = Some s" and "indexInv w s"
    and "determineLastBlock w config firstBlock p = (r, p')"
  shows "\<exists>s'. cacheEntry p' = Some s' \<and> indexInv w s' \<and>
           timestampToBlockNumber s' = timestampToBlockNumber s \<and>
           lastMaxSlot s' = lastMaxSlot s"
proof -
  from determineLastBlock_frame[OF assms(1,3)]
  consider "cacheEntry p' = Some s"
    | l where "lastBlock s = None \<or> lastBlock s = Some 0" "cacheEntry p' = Some (s\<lparr>lastBlock := Some l\<rparr>)"
    by blast
  then show ?thesis
  proof cases
    case 1
    with assms(2) show ?thesis by simp
  next
    case 2
    from 2(1) have "cursorBound s \<le> max 0 l" by (auto simp: cursorBound_def)
    from indexInv_cursor[OF assms(2) this] 2(2) show ?thesis by simp
  qed
qed

lemma getHeaderData_nonneg: "getHeaderData w n = Inr h \<Longrightarrow> 0 \<le> n"
  by (auto simp: getHeaderData_def getHeaderByNumber_def split: sum.splits if_splits)

lemma sorted_last_bound:
  assumes "sorted xs" and "x \<in> set xs"
  shows "x \<le> last (xs :: int list)"
proof -
  from assms(2) obtain i where i: "i < length xs" "xs ! i = x" by (auto simp: in_set_conv_nth)
  then have ne: "xs \<noteq> []" by auto
  from i have "i \<le> length xs - 1" by simp
  with assms(1) i have "xs ! i \<le> xs ! (length xs - 1)"
    by (intro sorted_nth_mono) auto
  with i ne show ?thesis by (simp add: last_conv_nth)
qed

lemma fetched_extend:
  assumes "indexInv w s" and "fetched w hs s" and "lastBlock s = Some l"
    and "map number avail = [l + 1..t]"
    and "\<forall>h\<in>set avail. getHeaderData w (number h) = Inr h"
    and "headers1 = hs @ avail"
    and "s2 = (if length headers1 > 0
               then s\<lparr>lastBlock := Some (number (last headers1))\<rparr> else s)"
  shows "indexInv w s2 \<and> fetched w headers1 s2 \<and>
         timestampToBlockNumber s2 = timestampToBlockNumber s \<and>
         lastMaxSlot s2 = lastMaxSlot s"
proof (cases "headers1 = []")
  case True
  with assms show ?thesis by simp
next
  case False
  define l' where "l' = number (last headers1)"
  from False assms(7) have s2: "s2 = s\<lparr>lastBlock := Some l'\<rparr>" by (simp add: l'_def)
  have availNum: "l + 1 \<le> number h \<and> 0 \<le> number h" if "h \<in> set avail" for h
  proof -
    from that have "number h \<in> set (map number avail)" by simp
    with assms(4) have "l + 1 \<le> number h" by simp
    moreover from assms(5) that have "0 \<le> number h" by (auto dest: getHeaderData_nonneg)
    ultimately show ?thesis by simp
  qed
  have hsNum: "number h \<le> l" if "h \<in> set hs" for h
  proof -
    from that have ne: "hs \<noteq> []" by auto
    with assms(2,3) have last: "number (last hs) = l" by (simp add: fetched_def)
    from assms(2) have "sorted (map number hs)" by (simp add: fetched_def)
    from sorted_last_bound[OF this, of "number h"] that
    have "number h \<le> last (map number hs)" by simp
    with ne last show ?thesis by (simp add: last_map)
  qed
  have l': "l \<le> l'"
  proof (cases "avail = []")
    case True
    with False assms(6) have "hs \<noteq> []" "headers1 = hs" by simp_all
    with assms(2,3) show ?thesis by (simp add: l'_def fetched_def)
  next
    case ne: False
    then have la: "last headers1 = last avail" "last avail \<in> set avail"
      using assms(6) by simp_all
    from availNum[OF la(2)] have "l \<le> number (last avail)" by simp
    with la(1) show ?thesis by (simp add: l'_def)
  qed
  have bound: "cursorBound s \<le> max 0 l'" using assms(3) l' by (simp add: cursorBound_def)
  have inv: "indexInv w s2" unfolding s2 by (rule indexInv_cursor[OF assms(1) bound])
  have sortedNum: "sorted (map number headers1)"
  proof -
    have "sorted (map number hs)" using assms(2) by (simp add: fetched_def)
    moreover have "sorted (map number avail)" using assms(4) by simp
    moreover have "\<forall>x\<in>set (map number hs). \<forall>y\<in>set (map number avail). x \<le> y"
      using hsNum availNum by fastforce
    ultimately show ?thesis unfolding assms(6) by (simp add: sorted_append)
  qed
  have chain: "\<forall>h\<in>set headers1. getHeaderData w (number h) = Inr h"
    using assms(2,5,6) by (auto simp: fetched_def)
  have above: "snd e \<le> number h"
    if "h \<in> set headers1" "e \<in> set (timestampToBlockNumber s)" for h e
  proof (cases "h \<in> set hs")
    case True
    with assms(2) that(2) show ?thesis by (simp add: fetched_def)
  next
    case False
    with that(1) assms(6) have "h \<in> set avail" by simp
    from availNum[OF this] have a: "max 0 l \<le> number h" by simp
    from assms(1) that(2) have "snd e \<le> cursorBound s" by (simp add: indexInv_def)
    with assms(3) have b: "snd e \<le> max 0 l" by (simp add: cursorBound_def)
    from b a show ?thesis by (rule order_trans)
  qed
  from inv sortedNum chain above False show ?thesis
    by (simp add: fetched_def s2 l'_def)
qed

lemma fetchHeaders_inv:
  "cacheEntry p = Some s \<Longrightarrow> indexInv w s \<Longrightarrow> fetched w hs s \<Longrightarrow>
   fetchHeaders k w config maxSlot hs p = Some (r, p') \<Longrightarrow>
   \<exists>s'. cacheEntry p' = Some s' \<and> indexInv w s' \<and>
        timestampToBlockNumber s' = timestampToBlockNumber s \<and>
        lastMaxSlot s' = lastMaxSlot s \<and>
        (\<forall>hs'. r = Inr hs' \<longrightarrow> fetched w hs' s')"
proof (induction k arbitrary: p s hs)
  case 0
  then show ?case by simp
next
  case (Suc k)
  show ?case
  proof (cases "latestBlock s")
    case None
    with Suc.prems(1,4) have "p' = p" "r = Inl UninitializedStateError"
      by (auto simp: latestBlockOf_def)
    with Suc.prems(1,2) show ?thesis by simp
  next
    case (Some latest)
    show ?thesis
    proof (cases "lastBlock s")
      case None
      with Suc.prems(1,4) Some show ?thesis by (simp add: latestBlockOf_def getState_def)
    next
      case l: (Some l)
      obtain r1 p1 where g: "getMultipleHeaderData w (l + 1)
          (min (number latest) (l + funnelBlockGroupSize config)) p = (r1, p1)"
        by (cases "getMultipleHeaderData w (l + 1)
          (min (number latest) (l + funnelBlockGroupSize config)) p")
      from getMultipleHeaderData_frame[OF g] Suc.prems(1) have c1: "cacheEntry p1 = Some s" by simp
      show ?thesis
      proof (cases r1)
        case (Inl e)
        with Suc.prems(1,4) Some l g have "p' = p1" "r = Inl e"
          by (auto simp: latestBlockOf_def getState_def Let_def)
        with c1 Suc.prems(2) show ?thesis by simp
      next
        case (Inr availHeaders)
        define headers1 where "headers1 = hs @ availHeaders"
        define p2 where "p2 = (if length headers1 > 0
                then modifyState (\<lambda>s. s\<lparr>lastBlock := Some (number (last headers1))\<rparr>) p1
                else p1)"
        define s2 where "s2 = (if length headers1 > 0
                then s\<lparr>lastBlock := Some (number (last headers1))\<rparr> else s)"
        have c2: "cacheEntry p2 = Some s2"
          using c1 by (simp add: p2_def s2_def modifyState_def)
        from getMultipleHeaderData_headers[OF g[unfolded Inr]]
        have av: "map number availHeaders =
                    [l + 1..min (number latest) (l + funnelBlockGroupSize config) - 1]"
          "\<forall>h\<in>set availHeaders. getHeaderData w (number h) = Inr h"
          by simp_all
        from fetched_extend[OF Suc.prems(2,3) l av headers1_def s2_def]
        have e2: "indexInv w s2" "fetched w headers1 s2"
          "timestampToBlockNumber s2 = timestampToBlockNumber s"
          "lastMaxSlot s2 = lastMaxSlot s"
          by simp_all
        from Suc.prems(4)
        have step: "(if length headers1 > 0 \<and> of_int (slot (last headers1)) \<ge> maxSlot
             then Some (Inr headers1, p2)
             else if min (number latest) (l + funnelBlockGroupSize config) \<noteq> number latest
             then fetchHeaders k w config maxSlot headers1 p2
             else
               (case waitForBlock k w config (number latest) p2 of
                  None \<Rightarrow> None
                | Some (Inl e, p3) \<Rightarrow> Some (Inl e, p3)
                | Some (Inr u, p3) \<Rightarrow> fetchHeaders k w config maxSlot headers1 p3)) = Some (r, p')"
          by (simp only: fetchHeaders_turn[OF Suc.prems(1) Some l g[unfolded Inr] headers1_def p2_def])
        show ?thesis
        proof (cases "length headers1 > 0 \<and> of_int (slot (last headers1)) \<ge> maxSlot")
          case True
          with step have "p' = p2" "r = Inr headers1" by simp_all
          with c2 e2 show ?thesis by simp
        next
          case nb: False
          show ?thesis
          proof (cases "min (number latest) (l + funnelBlockGroupSize config) \<noteq> number latest")
            case True
            with step nb have "fetchHeaders k w config maxSlot headers1 p2 = Some (r, p')"
              by (auto split: if_splits)
            from Suc.IH[OF c2 e2(1,2) this] e2(3,4) show ?thesis by auto
          next
            case False
            with step nb have wt: "(case waitForBlock k w config (number latest) p2 of
                  None \<Rightarrow> None
                | Some (Inl e, p3) \<Rightarrow> Some (Inl e, p3)
                | Some (Inr u, p3) \<Rightarrow> fetchHeaders k w config maxSlot headers1 p3) = Some (r, p')"
              by (auto split: if_splits)
            then obtain r3 p3 where w3: "waitForBlock k w config (number latest) p2 = Some (r3, p3)"
              by (cases "waitForBlock k w config (number latest) p2") auto
            from waitForBlock_frame[OF c2 w3] obtain lb where
              c3: "cacheEntry p3 = Some (s2\<lparr>latestBlock := lb\<rparr>)" by blast
            have e3: "indexInv w (s2\<lparr>latestBlock := lb\<rparr>)" "fetched w headers1 (s2\<lparr>latestBlock := lb\<rparr>)"
              using e2 by simp_all
            show ?thesis
            proof (cases r3)
              case (Inl e)
              with wt w3 have "p' = p3" "r = Inl e" by simp_all
              with c3 e3 e2(3,4) show ?thesis by simp
            next
              case (Inr u)
              with wt w3 have "fetchHeaders k w config maxSlot headers1 p3 = Some (r, p')" by simp
              from Suc.IH[OF c3 e3 this] e2(3,4) show ?thesis by auto
            qed
          qed
        qed
      qed
    qed
  qed
qed

lemma indexInv_appended:
  assumes "indexInv w s" and "fetched w hs s"
  shows "indexInv w (s\<lparr>timestampToBlockNumber :=
           drop k (timestampToBlockNumber s @
                     map (\<lambda>availHeader. (slot availHeader * 20, number availHeader)) hs)\<rparr>)"
proof -
  let ?new = "map (\<lambda>availHeader. (slot availHeader * 20, number availHeader)) hs"
  let ?all = "timestampToBlockNumber s @ ?new"
  have newOk: "logicalTime w (snd e) = Some (fst e) \<and> snd e \<le> cursorBound s"
    if "e \<in> set ?new" for e
  proof -
    from that obtain h where h: "h \<in> set hs" "e = (slot h * 20, number h)" by auto
    from assms(2) h(1) have g: "getHeaderData w (number h) = Inr h" by (simp add: fetched_def)
    from h(1) have ne: "hs \<noteq> []" by auto
    with assms(2) have lb: "lastBlock s = Some (number (last hs))" by (simp add: fetched_def)
    from assms(2) have "sorted (map number hs)" by (simp add: fetched_def)
    from sorted_last_bound[OF this, of "number h"] h(1) ne
    have "number h \<le> number (last hs)" by (simp add: last_map)
    with lb have "number h \<le> cursorBound s" by (simp add: cursorBound_def)
    with g h(2) show ?thesis by (simp add: logicalTime_def)
  qed
  have allOk: "logicalTime w (snd e) = Some (fst e) \<and> snd e \<le> cursorBound s"
    if "e \<in> set ?all" for e
    using that assms(1) newOk by (auto simp: indexInv_def)
  have "sorted (map snd ?new)"
    using assms(2) by (simp add: fetched_def comp_def)
  moreover have "sorted (map snd (timestampToBlockNumber s))"
    using assms(1) by (simp add: indexInv_def)
  moreover have "\<forall>x\<in>set (map snd (timestampToBlockNumber s)). \<forall>y\<in>set (map snd ?new). x \<le> y"
    using assms(2) by (auto simp: fetched_def)
  ultimately have "sorted (map snd ?all)" by (simp add: sorted_append)
  then have "sorted (drop k (map snd ?all))" by (rule sorted_wrt_drop)
  then have sortedDrop: "sorted (map snd (drop k ?all))" by (simp add: drop_map)
  have "logicalTime w (snd e) = Some (fst e) \<and> snd e \<le> cursorBound s"
    if "e \<in> set (drop k ?all)" for e
    using allOk[OF in_set_dropD[OF that]] .
  with sortedDrop show ?thesis by (simp add: indexInv_def cursorBound_def)
qed

lemma correlate_inv:
  assumes "cacheEntry p = Some s" and "indexInv w s" and "fetched w hs s"
    and "correlate w config chainName maxSlot chainData hs p = (r, p')"
  shows "\<exists>s'. cacheEntry p' = Some s' \<and> indexInv w s' \<and>
           timestampToBlockNumber s' =
             dropWhile (\<lambda>entry. of_int (fst entry) \<le> lastMaxSlot s * 20)
               (timestampToBlockNumber s @
                  map (\<lambda>availHeader. (slot availHeader * 20, number availHeader)) hs)"
proof -
  let ?all = "timestampToBlockNumber s @
                map (\<lambda>availHeader. (slot availHeader * 20, number availHeader)) hs"
  define k where "k = length (takeWhile (\<lambda>entry. of_int (fst entry) \<le> lastMaxSlot s * 20) ?all)"
  have dw: "dropWhile (\<lambda>entry. of_int (fst entry) \<le> lastMaxSlot s * 20) ?all = drop k ?all"
    by (simp add: k_def dropWhile_eq_drop)
  from correlate_frame[OF assms(1,4)] obtain lb ms where
    c: "cacheEntry p' = Some (s\<lparr>latestBlock := lb, lastMaxSlot := ms,
          timestampToBlockNumber := drop k ?all\<rparr>)"
    unfolding dw by blast
  have "indexInv w (s\<lparr>timestampToBlockNumber := drop k ?all\<rparr>)"
    by (rule indexInv_appended[OF assms(2,3)])
  then have "indexInv w (s\<lparr>latestBlock := lb, lastMaxSlot := ms,
          timestampToBlockNumber := drop k ?all\<rparr>)"
    by (simp add: indexInv_def cursorBound_def)
  with c dw show ?thesis by (intro exI[of _ "s\<lparr>latestBlock := lb, lastMaxSlot := ms,
          timestampToBlockNumber := drop k ?all\<rparr>"]) simp
qed

lemma fillBuffer_frame:
  assumes "cacheEntry p = Some s" and "fillBuffer base blockHeight p = (r, p1)"
  shows "\<exists>b. cacheEntry p1 = Some (s\<lparr>bufferedChainData := b\<rparr>)"
proof (cases "length (bufferedChainData s) = 0 \<and> (\<exists>bd. base blockHeight = Inr bd)")
  case True
  then obtain bd where "base blockHeight = Inr bd" by blast
  with True assms have "cacheEntry p1 = Some (s\<lparr>bufferedChainData := bufferedChainData s @ bd\<rparr>)"
    by (auto simp: fillBuffer_def getState_def modifyState_def)
  then show ?thesis by blast
next
  case False
  with assms have "cacheEntry p1 = Some s"
    by (cases "base blockHeight") (auto simp: fillBuffer_def getState_def split: if_splits)
  then have "cacheEntry p1 = Some (s\<lparr>bufferedChainData := bufferedChainData s\<rparr>)" by simp
  then show ?thesis by blast
qed

lemma readData_fill_error:
  "fillBuffer base blockHeight p = (Inl e, p1) \<Longrightarrow>
   readData fuel w config chainName base blockHeight p = Some (Inl e, p1)"
  by (simp add: readData_def)

lemma readData_refresh_error:
  "fillBuffer base blockHeight p = (Inr u, p1) \<Longrightarrow> updateLatestBlock w config p1 = (Inl e, p2) \<Longrightarrow>
   readData fuel w config chainName base blockHeight p = Some (Inl e, p2)"
  by (simp add: readData_def)

lemma readData_latest_error:
  "fillBuffer base blockHeight p = (Inr u, p1) \<Longrightarrow> updateLatestBlock w config p1 = (Inr n, p2) \<Longrightarrow>
   latestBlockOf p2 = Inl e \<Longrightarrow>
   readData fuel w config chainName base blockHeight p = Some (Inl e, p2)"
  by (simp add: readData_def)

lemma readData_inv:
  assumes "cacheEntry p = Some s" and "indexInv w s"
    and "readData fuel w config chainName base blockHeight p = Some (r, p')"
  shows "\<exists>s' new. cacheEntry p' = Some s' \<and> indexInv w s' \<and> sorted (map snd new) \<and>
           (timestampToBlockNumber s' = timestampToBlockNumber s \<or>
            timestampToBlockNumber s' =
              dropWhile (\<lambda>entry. of_int (fst entry) \<le> lastMaxSlot s * 20)
                (timestampToBlockNumber s @ new))"
proof -
  have same: "\<exists>s' new. cacheEntry p' = Some s' \<and> indexInv w s' \<and> sorted (map snd new) \<and>
           (timestampToBlockNumber s' = timestampToBlockNumber s \<or>
            timestampToBlockNumber s' =
              dropWhile (\<lambda>entry. of_int (fst entry) \<le> lastMaxSlot s * 20)
                (timestampToBlockNumber s @ new))"
    if "cacheEntry p' = Some s'" "indexInv w s'"
       "timestampToBlockNumber s' = timestampToBlockNumber s" for s'
    using that by (intro exI[of _ s'] exI[of _ "[]"]) simp
  obtain r1 p1 where f: "fillBuffer base blockHeight p = (r1, p1)"
    by (cases "fillBuffer base blockHeight p")
  from fillBuffer_frame[OF assms(1) f] obtain b where
    c1: "cacheEntry p1 = Some (s\<lparr>bufferedChainData := b\<rparr>)" by blast
  show ?thesis
  proof (cases r1)
    case (Inl e)
    with f assms(3) have "p' = p1" by (simp add: readData_fill_error)
    with c1 assms(2) show ?thesis by (intro same[of "s\<lparr>bufferedChainData := b\<rparr>"]) simp_all
  next
    case u: (Inr u)
    obtain r2 p2 where up: "updateLatestBlock w config p1 = (r2, p2)"
      by (cases "updateLatestBlock w config p1")
    from updateLatestBlock_frame[OF c1 up] obtain lb where
      c2: "cacheEntry p2 = Some (s\<lparr>bufferedChainData := b, latestBlock := lb\<rparr>)" by auto
    define s2 where "s2 = s\<lparr>bufferedChainData := b, latestBlock := lb\<rparr>"
    have i2: "indexInv w s2" "timestampToBlockNumber s2 = timestampToBlockNumber s"
      "lastMaxSlot s2 = lastMaxSlot s"
      using assms(2) by (simp_all add: s2_def)
    note c2' = c2[folded s2_def]
    show ?thesis
    proof (cases r2)
      case (Inl e)
      with f u up assms(3) have "p' = p2" by (simp add: readData_refresh_error)
      with c2' i2 show ?thesis by (intro same[of s2]) simp_all
    next
      case n: (Inr n)
      show ?thesis
      proof (cases "latestBlockOf p2")
        case (Inl e)
        with f u up n assms(3) have "p' = p2" by (simp add: readData_latest_error)
        with c2' i2 show ?thesis by (intro same[of s2]) simp_all
      next
        case (Inr latest)
        define chainData where "chainData =
            filter (\<lambda>d. applyDelay config (timestamp d) \<le> slot latest * 20) (bufferedChainData s2)"
        define s3 where "s3 = s2\<lparr>bufferedChainData := drop (length chainData) (bufferedChainData s2)\<rparr>"
        define p3 where "p3 = p2\<lparr>cacheEntry := Some (s2\<lparr>bufferedChainData :=
                   drop (length chainData) (bufferedChainData s2)\<rparr>)\<rparr>"
        have c3: "cacheEntry p3 = Some s3" by (simp add: p3_def s3_def)
        have i3: "indexInv w s3" "timestampToBlockNumber s3 = timestampToBlockNumber s"
          "lastMaxSlot s3 = lastMaxSlot s"
          using i2 by (simp_all add: s3_def)
        note eq = readData_after_refresh[OF f[unfolded u] up[unfolded n] Inr c2' chainData_def p3_def,
            of fuel chainName]
        note eqb = readData_after_refresh_batch[OF f[unfolded u] up[unfolded n] Inr c2' chainData_def
            p3_def, of _ _ _ fuel chainName]
        show ?thesis
        proof (cases chainData)
          case Nil
          with assms(3) eq have "p' = p3" by simp
          with c3 i3 show ?thesis by (intro same[of s3]) simp_all
        next
          case (Cons firstBlock others)
          define maxSlot :: rat where
            "maxSlot = of_int (applyDelay config (timestamp (last chainData))) / 20"
          note eqc = eqb[OF Cons maxSlot_def]
          obtain r4 p4 where d: "determineLastBlock w config firstBlock p3 = (r4, p4)"
            by (cases "determineLastBlock w config firstBlock p3")
          from determineLastBlock_inv[OF c3 i3(1) d] i3(2,3)
          obtain s4 where c4: "cacheEntry p4 = Some s4" and i4: "indexInv w s4"
            "timestampToBlockNumber s4 = timestampToBlockNumber s"
            "lastMaxSlot s4 = lastMaxSlot s"
            by auto
          show ?thesis
          proof (cases r4)
            case (Inl e)
            with assms(3) eqc d have "p' = p4" by simp
            with c4 i4 show ?thesis by (intro same[of s4]) simp_all
          next
            case l: (Inr l)
            from assms(3) eqc d l
            have ft: "(case fetchHeaders fuel w config maxSlot [] p4 of
                  None \<Rightarrow> None
                | Some (Inl e, p5) \<Rightarrow> Some (Inl e, p5)
                | Some (Inr headers, p5) \<Rightarrow>
                    Some (shareMerged (\<lambda>d. applyDelay config (timestamp d) \<le> slot latest * 20)
                            (bufferedChainData s2)
                            (correlate w config chainName maxSlot chainData headers p5)))
                = Some (r, p')"
              by simp
            then obtain r5 p5 where f5: "fetchHeaders fuel w config maxSlot [] p4 = Some (r5, p5)"
              by (cases "fetchHeaders fuel w config maxSlot [] p4") auto
            have f0: "fetched w [] s4" by (simp add: fetched_def)
            from fetchHeaders_inv[OF c4 i4(1) f0 f5] i4(2,3)
            obtain s5 where c5: "cacheEntry p5 = Some s5" and i5: "indexInv w s5"
              "timestampToBlockNumber s5 = timestampToBlockNumber s"
              "\<forall>hs'. r5 = Inr hs' \<longrightarrow> fetched w hs' s5"
              "lastMaxSlot s5 = lastMaxSlot s"
              by auto
            show ?thesis
            proof (cases r5)
              case (Inl e)
              with ft f5 have "p' = p5" by simp
              with c5 i5 show ?thesis by (intro same[of s5]) simp_all
            next
              case h: (Inr headers)
              with i5(3) have fh: "fetched w headers s5" by simp
              obtain r6 p6 where
                co: "correlate w config chainName maxSlot chainData headers p5 = (r6, p6)"
                by (cases "correlate w config chainName maxSlot chainData headers p5")
              with ft f5 h
              have sh: "shareMerged (\<lambda>d. applyDelay config (timestamp d) \<le> slot latest * 20)
                          (bufferedChainData s2) (r6, p6) = (r, p')"
                by simp
              from correlate_inv[OF c5 i5(1) fh co] i5(2,4)
              obtain s6 where s6: "cacheEntry p6 = Some s6" "indexInv w s6"
                "timestampToBlockNumber s6 =
                   dropWhile (\<lambda>entry. of_int (fst entry) \<le> lastMaxSlot s * 20)
                     (timestampToBlockNumber s @
                       map (\<lambda>availHeader. (slot availHeader * 20, number availHeader)) headers)"
                by auto
              from shareMerged_frame[OF s6(1) sh] obtain b' where
                "cacheEntry p' = Some (s6\<lparr>bufferedChainData := b'\<rparr>)" by blast
              with s6(2,3)
              obtain s' where s': "cacheEntry p' = Some s'" "indexInv w s'"
                "timestampToBlockNumber s' =
                   dropWhile (\<lambda>entry. of_int (fst entry) \<le> lastMaxSlot s * 20)
                     (timestampToBlockNumber s @
                       map (\<lambda>availHeader. (slot availHeader * 20, number availHeader)) headers)"
                by simp
              have "sorted (map snd (map (\<lambda>availHeader. (slot availHeader * 20, number availHeader))
                      headers))"
                using fh by (simp add: fetched_def comp_def)
              with s' show ?thesis by blast
            qed
          qed
        qed
      qed
    qed
  qed
qed

lemma readData_uninitialized:
  "cacheEntry p = None \<Longrightarrow> readData fuel w config chainName base blockHeight p = Some (r, p') \<Longrightarrow>
   p' = p"
  by (simp add: readData_def fillBuffer_def getState_def)

lemma readPresyncData_frame:
  "readPresyncData w chainName baseData args p = (r, p') \<Longrightarrow> cacheEntry p' = cacheEntry p"
  by (auto simp: readPresyncData_def getState_def Let_def
      split: option.splits if_splits prod.splits sum.splits dest: getSubmittedData_frame)

lemma indexInv_initialize: "indexInv w (initialize mapped)"
  by (simp add: indexInv_def initialize_def)

lemma recoverState_inv:
  assumes "\<forall>s. cacheEntry p = Some s \<longrightarrow> indexInv w s"
    and "recoverState w config startingHeight p = (r, p')"
  shows "\<forall>s. cacheEntry p' = Some s \<longrightarrow> indexInv w s"
proof (cases "initialized p")
  case True
  then obtain s where s: "cacheEntry p = Some s" by (auto simp: initialized_def)
  obtain r1 p1 where u: "updateLatestBlock w config p = (r1, p1)"
    by (cases "updateLatestBlock w config p")
  from assms(2) u have "p' = p1"
    by (simp add: recoverState_initialized[OF True] split: sum.splits)
  with updateLatestBlock_frame[OF s u] assms(1) s show ?thesis by auto
next
  case False
  then have none: "cacheEntry p = None" by (simp add: initialized_def)
  show ?thesis
  proof (cases "web3Block w startingHeight")
    case None
    with False assms(2) have "p' = call (Web3GetBlock startingHeight) p"
      by (simp add: recoverState_def)
    with none show ?thesis by (simp add: call_def)
  next
    case (Some ts)
    obtain r1 p1 where f: "findBlockByTimestamp w (applyDelay config ts)
                        (call CreateApi (call (Web3GetBlock startingHeight) p)) = (r1, p1)"
      by (cases "findBlockByTimestamp w (applyDelay config ts)
                        (call CreateApi (call (Web3GetBlock startingHeight) p))")
    from findBlockByTimestamp_frame[OF f] none have c1: "cacheEntry p1 = None"
      by (simp add: call_def)
    show ?thesis
    proof (cases r1)
      case (Inl e)
      with False Some f assms(2) have "p' = p1" by (simp add: recoverState_def)
      with c1 show ?thesis by simp
    next
      case (Inr mapped)
      define p2 where "p2 = p1\<lparr>cacheEntry := Some (initialize mapped)\<rparr>"
      have c2: "cacheEntry p2 = Some (initialize mapped)" by (simp add: p2_def)
      obtain r3 p3 where u: "updateLatestBlock w config p2 = (r3, p3)"
        by (cases "updateLatestBlock w config p2")
      from False Some f Inr assms(2) u have "p' = p3"
        by (simp add: recoverState_def p2_def split: sum.splits)
      with updateLatestBlock_frame[OF c2 u] indexInv_initialize[of w mapped] show ?thesis by auto
    qed
  qed
qed

lemma reachable_inv:
  "reachable w config chainName p \<Longrightarrow> \<forall>s. cacheEntry p = Some s \<longrightarrow> indexInv w s"
proof (induction rule: reachable.induct)
  case (start p)
  then show ?case by simp
next
  case (recover p startingHeight r p')
  from recoverState_inv[OF recover.IH recover.hyps(2)] show ?case .
next
  case (presync p baseData args r p')
  from readPresyncData_frame[OF presync.hyps(2)] presync.IH show ?case by simp
next
  case (read p fuel base blockHeight r p')
  show ?case
  proof (cases "cacheEntry p")
    case None
    from readData_uninitialized[OF None read.hyps(2)] None show ?thesis by simp
  next
    case (Some s)
    with read.IH have "indexInv w s" by simp
    from readData_inv[OF Some this read.hyps(2)] show ?thesis by auto
  qed
qed

lemma indexInv_sorted_by_time:
  assumes "slotsNonDecreasing w" and "indexInv w s"
  shows "sorted (map fst (timestampToBlockNumber s))"
proof -
  from assms(2) have "sorted_wrt (\<lambda>x y. snd x \<le> snd y) (timestampToBlockNumber s)"
    by (simp add: indexInv_def sorted_map)
  then have "sorted_wrt (\<lambda>x y. fst x \<le> fst y) (timestampToBlockNumber s)"
  proof (rule sorted_wrt_mono_rel[rotated])
    fix x y
    assume x: "x \<in> set (timestampToBlockNumber s)" and y: "y \<in> set (timestampToBlockNumber s)"
      and le: "snd x \<le> snd y"
    from assms(2) x y have "logicalTime w (snd x) = Some (fst x)" "logicalTime w (snd y) = Some (fst y)"
      by (simp_all add: indexInv_def)
    with assms(1) le show "fst x \<le> fst y" unfolding slotsNonDecreasing_def by blast
  qed
  then show ?thesis by (simp add: sorted_map)
qed

text \<open>
  Claim C9. After any sequence of calls of \<^verbatim>\<open>readData\<close>, the index
  \<^verbatim>\<open>timestampToBlockNumber\<close> of the state is sorted ascending by logical time: entries are
  appended only at its end, from headers fetched in ascending block order, and removed
  only from its head, and the index is never reordered.

  The secondary chain is one whose slots do not decrease with the block number, as
  every block of a chain is of a later slot than its parent: \<open>slotsNonDecreasing w\<close>.
  The processes are those a sync process can be in, after any sequence of calls of
  \<^verbatim>\<open>recoverState\<close>, \<^verbatim>\<open>readPresyncData\<close> and \<^verbatim>\<open>readData\<close> that return. A call of \<^verbatim>\<open>readData\<close>
  either leaves the index as it is, or appends entries at its end, in ascending order of
  their block numbers, and then removes from its head the entries whose time is at or
  before the maximum slot boundary of the call before (\<open>lastMaxSlot * 20\<close>).
\<close>

theorem index_sorted_after_calls:
  assumes "slotsNonDecreasing w" and "reachable w config chainName p" and "cacheEntry p = Some s"
  shows "sorted (map fst (timestampToBlockNumber s)) \<and>
         (\<forall>fuel base blockHeight r p'.
            readData fuel w config chainName base blockHeight p = Some (r, p') \<longrightarrow>
            (\<exists>s' new. cacheEntry p' = Some s' \<and> sorted (map snd new) \<and>
               (timestampToBlockNumber s' = timestampToBlockNumber s \<or>
                timestampToBlockNumber s' =
                  dropWhile (\<lambda>entry. of_int (fst entry) \<le> lastMaxSlot s * 20)
                    (timestampToBlockNumber s @ new))))"
proof -
  from reachable_inv[OF assms(2)] assms(3) have inv: "indexInv w s" by simp
  have step: "\<exists>s' new. cacheEntry p' = Some s' \<and> sorted (map snd new) \<and>
               (timestampToBlockNumber s' = timestampToBlockNumber s \<or>
                timestampToBlockNumber s' =
                  dropWhile (\<lambda>entry. of_int (fst entry) \<le> lastMaxSlot s * 20)
                    (timestampToBlockNumber s @ new))"
    if "readData fuel w config chainName base blockHeight p = Some (r, p')"
    for fuel base blockHeight r p'
    using readData_inv[OF assms(3) inv that] by blast
  from indexInv_sorted_by_time[OF assms(1) inv] step show ?thesis by blast
qed

lemma exampleWorld_logicalTime_all:
  "logicalTime exampleWorld n = (if 1 \<le> n then Some ((n + 10) * 20) else None)"
  by (auto simp: logicalTime_def getHeaderData_def getHeaderByNumber_def exampleWorld_def
      getSlotFromHeader_def)

lemma exampleWorld_slotsNonDecreasing: "slotsNonDecreasing exampleWorld"
  by (auto simp: slotsNonDecreasing_def exampleWorld_logicalTime_all split: if_splits)

theorem index_sorted_after_calls_witness:
  "map_option (\<lambda>x. map_option (\<lambda>s. sorted (map fst (timestampToBlockNumber s))) (cacheEntry (snd x)))
     (readData (Suc 0) exampleWorld exampleConfig ''avail''
        (\<lambda>h. Inr [exampleBlock 4 240, exampleBlock 5 250, exampleBlock 6 400]) 4 recoveredProcess)
     = Some (Some True)"
proof -
  let ?s = "\<lparr>latestBlock = Some \<lparr>number = 7, hash = ''h'', slot = 17\<rparr>,
          startingBlockHeight = 2, lastMaxSlot = 25 / 2, lastBlock = Some 7,
          bufferedChainData = [exampleBlock 6 400],
          timestampToBlockNumber = [(240, 2), (260, 3), (280, 4), (300, 5), (320, 6), (340, 7)]\<rparr>"
  let ?p = "\<lparr>cacheEntry = Some ?s,
      clock = 4,
      trace =
        [Web3GetBlock 3, CreateApi, ChainGetFinalizedHead, ChainGetHeader 4,
         ChainGetHeader 2, ChainGetHeader 1, ChainGetFinalizedHead,
         ChainGetHeader 7, ChainGetFinalizedHead, ChainGetHeader 8,
         DbLatestProcessed, Web3GetBlock 3, ChainGetFinalizedHead,
         ChainGetHeader 5, ChainGetHeader 3, ChainGetHeader 2,
         ChainGetHeader 1, ChainGetHeader 2, ChainGetHeader 3,
         ChainGetHeader 4, ChainGetHeader 5, ChainGetHeader 6,
         ChainGetHeader 7, LightClientGet 2]\<rparr>"
  have r0: "reachable exampleWorld exampleConfig ''avail'' emptyProcess"
    by (rule reachable.start) (simp add: emptyProcess_def)
  have rec: "recoverState exampleWorld exampleConfig 3 emptyProcess = (Inr (), recoveredProcess)"
    by (simp add: recoverState_example recoveredProcess_value)
  have r1: "reachable exampleWorld exampleConfig ''avail'' recoveredProcess"
    by (rule reachable.recover[OF r0 rec])
  have r2: "reachable exampleWorld exampleConfig ''avail'' ?p"
    by (rule reachable.read[OF r1 readData_sorted_example])
  have c: "cacheEntry ?p = Some ?s" by simp
  from index_sorted_after_calls[OF exampleWorld_slotsNonDecreasing r2 c]
  have "sorted (map fst (timestampToBlockNumber ?s))" by blast
  then show ?thesis by (simp add: readData_sorted_example)
qed

end
